theory Spec2Isabelle
  imports Complex_Main "HOL-Library.AList" "HOL-Library.Char_ord" "HOL-Library.List_Lexorder"
    "HOL-Library.Multiset"
begin

section \<open>JSON values and their serialisation\<close>

text \<open>
  The values \<^verbatim>\<open>json.loads\<close> produces: \<^verbatim>\<open>None\<close>, \<^verbatim>\<open>bool\<close>, \<^verbatim>\<open>int\<close>, \<^verbatim>\<open>str\<close>,
  \<^verbatim>\<open>list\<close> and \<^verbatim>\<open>dict\<close> (an association list in insertion order, keys are strings).
  Floating-point numbers are left out. A Python \<^verbatim>\<open>str\<close> is a list of code points; a
  \<^typ>\<open>char\<close> covers the code points 0 to 255, and \<open><\<close> on \<^typ>\<open>string\<close> is the
  lexicographic order by code point, as Python's is.
\<close>

datatype json =
    JNull
  | JBool bool
  | JNum int
  | JStr string
  | JArr "json list"
  | JObj "(string \<times> json) list"

datatype error =
    AttributeError
  | TypeError
  | JSONDecodeError
  | NotFound
  | PreconditionFailed
  | StoreError
  | RecursionError
  | ValueError

definition digit_char :: "nat \<Rightarrow> char" where
  "digit_char d = ''0123456789abcdef'' ! d"

fun str_nat :: "nat \<Rightarrow> string" where
  "str_nat n = (if n < 10 then [digit_char n] else str_nat (n div 10) @ [digit_char (n mod 10)])"

declare str_nat.simps [simp del]

definition str_int :: "int \<Rightarrow> string" where
  "str_int i = (if i < 0 then CHR ''-'' # str_nat (nat (- i)) else str_nat (nat i))"

text \<open>
  \<^verbatim>\<open>json.dumps\<close> escapes with \<^verbatim>\<open>ensure_ascii=True\<close>: the quote, the backslash, the
  named control characters, and every other character outside space..tilde as
  \<^verbatim>\<open>\u00xx\<close>. Its output is pure ASCII.
\<close>

definition escape_char :: "char \<Rightarrow> string" where
  "escape_char c =
     (if c = CHR 0x22 then [CHR 0x5C, CHR 0x22]
      else if c = CHR 0x5C then [CHR 0x5C, CHR 0x5C]
      else if c = CHR 0x0A then [CHR 0x5C, CHR ''n'']
      else if c = CHR 0x0D then [CHR 0x5C, CHR ''r'']
      else if c = CHR 0x09 then [CHR 0x5C, CHR ''t'']
      else if c = CHR 0x08 then [CHR 0x5C, CHR ''b'']
      else if c = CHR 0x0C then [CHR 0x5C, CHR ''f'']
      else if (of_char c :: nat) < 32 \<or> 126 < (of_char c :: nat)
        then [CHR 0x5C, CHR ''u'', CHR ''0'', CHR ''0'',
              digit_char (of_char c div 16), digit_char (of_char c mod 16)]
      else [c])"

definition encode_str :: "string \<Rightarrow> string" where
  "encode_str s = CHR 0x22 # concat (map escape_char s) @ [CHR 0x22]"

fun join :: "string \<Rightarrow> string list \<Rightarrow> string" where
  "join sep [] = []"
| "join sep [x] = x"
| "join sep (x # y # ys) = x @ sep @ join sep (y # ys)"

text \<open>\<^verbatim>\<open>json.dumps(v)\<close>: one line, separators \<^verbatim>\<open>", "\<close> and \<^verbatim>\<open>": "\<close>.\<close>

primrec dumps :: "json \<Rightarrow> string" where
  "dumps JNull = ''null''"
| "dumps (JBool b) = (if b then ''true'' else ''false'')"
| "dumps (JNum n) = str_int n"
| "dumps (JStr s) = encode_str s"
| "dumps (JArr xs) = ''['' @ join '', '' (map dumps xs) @ '']''"
| "dumps (JObj kvs) =
     ''{'' @ join '', ''
        (map (\<lambda>(k, v). encode_str k @ '': '' @ v) (map (map_prod id dumps) kvs)) @ ''}''"

definition newline_indent :: "nat \<Rightarrow> string" where
  "newline_indent level = CHR 0x0A # replicate (2 * level) CHR '' ''"

text \<open>
  \<^verbatim>\<open>json.dumps(v, indent=2)\<close>: every item of a non-empty container on a line of its own,
  indented by two spaces per nesting level; the item separator is a bare comma.
\<close>

primrec dumps_indent :: "json \<Rightarrow> nat \<Rightarrow> string" where
  "dumps_indent JNull = (\<lambda>level. ''null'')"
| "dumps_indent (JBool b) = (\<lambda>level. if b then ''true'' else ''false'')"
| "dumps_indent (JNum n) = (\<lambda>level. str_int n)"
| "dumps_indent (JStr s) = (\<lambda>level. encode_str s)"
| "dumps_indent (JArr xs) = (\<lambda>level.
     if xs = [] then ''[]''
     else ''['' @ newline_indent (Suc level)
          @ join (CHR '','' # newline_indent (Suc level))
              (map (\<lambda>f. f (Suc level)) (map dumps_indent xs))
          @ newline_indent level @ '']'')"
| "dumps_indent (JObj kvs) = (\<lambda>level.
     if kvs = [] then ''{}''
     else ''{'' @ newline_indent (Suc level)
          @ join (CHR '','' # newline_indent (Suc level))
              (map (\<lambda>(k, f). encode_str k @ '': '' @ f (Suc level))
                 (map (map_prod id dumps_indent) kvs))
          @ newline_indent level @ ''}'')"

definition dumps_indent2 :: "json \<Rightarrow> string" where
  "dumps_indent2 v = dumps_indent v 0"

text \<open>
  \<^verbatim>\<open>s.encode('utf-8')\<close>, as far as its length goes: one byte for a code point below 128,
  two bytes for the code points 128 to 255.
\<close>

definition utf8_length :: "string \<Rightarrow> nat" where
  "utf8_length s = sum_list (map (\<lambda>c. if (of_char c :: nat) < 128 then 1 else 2) s)"

text \<open>Python truthiness of a decoded value (\<^verbatim>\<open>if logs_to_archive:\<close>).\<close>

fun truthy :: "json \<Rightarrow> bool" where
  "truthy JNull = False"
| "truthy (JBool b) = b"
| "truthy (JNum n) = (n \<noteq> 0)"
| "truthy (JStr s) = (s \<noteq> [])"
| "truthy (JArr xs) = (xs \<noteq> [])"
| "truthy (JObj kvs) = (kvs \<noteq> [])"

section \<open>Sorting the new entries by timestamp\<close>

text \<open>
  Python's \<^verbatim>\<open>==\<close> and \<^verbatim>\<open><\<close> on decoded values. \<^verbatim>\<open>bool\<close> is a subclass of \<^verbatim>\<open>int\<close>;
  dictionaries are equal when they hold equal values under the same keys, in any order;
  lists compare lexicographically; every other comparison by \<^verbatim>\<open><\<close> raises
  \<^verbatim>\<open>TypeError\<close>.
\<close>

fun py_num :: "json \<Rightarrow> int option" where
  "py_num (JNum n) = Some n"
| "py_num (JBool b) = Some (if b then 1 else 0)"
| "py_num v = None"

fun py_eq :: "json \<Rightarrow> json \<Rightarrow> bool"
  and py_eq_list :: "json list \<Rightarrow> json list \<Rightarrow> bool"
  and py_eq_items :: "(string \<times> json) list \<Rightarrow> (string \<times> json) list \<Rightarrow> bool" where
  "py_eq JNull y = (y = JNull)"
| "py_eq (JBool b) y = (py_num y = Some (if b then 1 else 0))"
| "py_eq (JNum n) y = (py_num y = Some n)"
| "py_eq (JStr s) y = (y = JStr s)"
| "py_eq (JArr xs) y = (case y of JArr ys \<Rightarrow> py_eq_list xs ys | _ \<Rightarrow> False)"
| "py_eq (JObj kvs) y =
     (case y of JObj kvs' \<Rightarrow> length kvs = length kvs' \<and> py_eq_items kvs kvs' | _ \<Rightarrow> False)"
| "py_eq_list [] ys = (ys = [])"
| "py_eq_list (x # xs) ys = (case ys of [] \<Rightarrow> False | y # ys' \<Rightarrow> py_eq x y \<and> py_eq_list xs ys')"
| "py_eq_items [] kvs' = True"
| "py_eq_items (kv # kvs) kvs' =
     (case map_of kvs' (fst kv) of
        None \<Rightarrow> False
      | Some v' \<Rightarrow> py_eq (snd kv) v' \<and> py_eq_items kvs kvs')"

fun py_lt :: "json \<Rightarrow> json \<Rightarrow> error + bool"
  and py_lt_list :: "json list \<Rightarrow> json list \<Rightarrow> error + bool" where
  "py_lt (JStr a) (JStr b) = Inr (a < b)"
| "py_lt (JArr xs) (JArr ys) = py_lt_list xs ys"
| "py_lt x y =
     (case (py_num x, py_num y) of
        (Some a, Some b) \<Rightarrow> Inr (a < b)
      | _ \<Rightarrow> Inl TypeError)"
| "py_lt_list [] ys = Inr (ys \<noteq> [])"
| "py_lt_list (x # xs) [] = Inr False"
| "py_lt_list (x # xs) (y # ys) = (if py_eq x y then py_lt_list xs ys else py_lt x y)"

text \<open>
  The sort key \<^verbatim>\<open>lambda x: x.get("timestamp", "1970-01-01T00:00:00Z")\<close>: only a
  dictionary has \<^verbatim>\<open>get\<close>.
\<close>

definition timestamp_key :: "json \<Rightarrow> error + json" where
  "timestamp_key x =
     (case x of
        JObj kvs \<Rightarrow>
          Inr (case map_of kvs ''timestamp'' of
                 Some v \<Rightarrow> v
               | None \<Rightarrow> JStr ''1970-01-01T00:00:00Z'')
      | _ \<Rightarrow> Inl AttributeError)"

fun decorate :: "json list \<Rightarrow> error + (json \<times> json) list" where
  "decorate [] = Inr []"
| "decorate (x # xs) =
     (case timestamp_key x of
        Inl e \<Rightarrow> Inl e
      | Inr k \<Rightarrow> (case decorate xs of Inl e \<Rightarrow> Inl e | Inr kxs \<Rightarrow> Inr ((k, x) # kxs)))"

definition comparable :: "json \<Rightarrow> json \<Rightarrow> bool" where
  "comparable a b = (isl (py_lt a b) = False \<and> isl (py_lt b a) = False)"

fun pairwise_comparable :: "json list \<Rightarrow> bool" where
  "pairwise_comparable [] = True"
| "pairwise_comparable (k # ks) = (list_all (comparable k) ks \<and> pairwise_comparable ks)"

definition key_lt :: "json \<Rightarrow> json \<Rightarrow> bool" where
  "key_lt a b = (py_lt a b = Inr True)"

fun insort_entry :: "json \<times> json \<Rightarrow> (json \<times> json) list \<Rightarrow> (json \<times> json) list" where
  "insort_entry kx [] = [kx]"
| "insort_entry kx (ky # rest) =
     (if key_lt (fst ky) (fst kx) then ky # insort_entry kx rest else kx # ky # rest)"

text \<open>
  \<^verbatim>\<open>new_entries.sort(key=...)\<close>: the keys are computed first (the first entry without
  \<^verbatim>\<open>get\<close> raises); the sort is stable; it raises \<^verbatim>\<open>TypeError\<close> when two of the keys
  cannot be compared (with a single entry nothing is compared).
\<close>

definition sort_entries :: "json list \<Rightarrow> error + json list" where
  "sort_entries xs =
     (case decorate xs of
        Inl e \<Rightarrow> Inl e
      | Inr kxs \<Rightarrow>
          if pairwise_comparable (map fst kxs)
          then Inr (map snd (foldr insort_entry kxs []))
          else Inl TypeError)"

section \<open>The object store\<close>

text \<open>
  The bucket, as far as the consolidation pass uses it: named objects, each with its text
  and the generation the store gave it at its last write. \<open>last_generation\<close> is the
  store's generation counter; \<open>trace\<close> records every request the run makes, in order,
  with whether it succeeded.
\<close>

record blob =
  content :: string
  generation :: nat

type_synonym blobs = "(string \<times> blob) list"

datatype event =
    Listed string
  | Downloaded string bool
  | Uploaded string bool
  | Copied string string bool
  | Deleted string bool

record world =
  objects :: blobs
  last_generation :: nat
  trace :: "event list"

text \<open>
  What the run cannot decide: whether the module-level client and bucket of
  \<^verbatim>\<open>gcs_utils\<close> were initialised, the decoder \<^verbatim>\<open>json.loads\<close> (\<open>Inl\<close> the
  exception it raises: \<open>JSONDecodeError\<close> for text that is not JSON, or another one such
  as \<open>RecursionError\<close> or \<open>ValueError\<close>), which requests fail in the store, what another writer does to the objects
  and the generation counter between this run's reads and its write of the master log,
  and the clock.
\<close>

record env =
  storage_client :: bool
  bucket :: bool
  loads :: "string \<Rightarrow> error + json"
  list_fault :: bool
  read_fault :: "string \<Rightarrow> bool"
  concurrent :: "blobs \<times> nat \<Rightarrow> blobs \<times> nat"
  write_fault :: bool
  archive_fault :: bool
  copy_fault :: "string \<Rightarrow> bool"
  delete_fault :: "string \<Rightarrow> bool"
  utcnow :: string

definition FRAGMENTS_PREFIX :: string where
  "FRAGMENTS_PREFIX = ''fragments/''"

definition PROCESSED_FRAGMENTS_PREFIX :: string where
  "PROCESSED_FRAGMENTS_PREFIX = ''processed/''"

definition MASTER_LOG_FILE_NAME :: string where
  "MASTER_LOG_FILE_NAME = ''master_log.json''"

definition MAX_LOG_SIZE_KB :: nat where
  "MAX_LOG_SIZE_KB = 200"

text \<open>
  The module initialisation of \<^verbatim>\<open>gcs_utils\<close>: the pair (client set, bucket set), from
  the environment variable and from whether \<^verbatim>\<open>storage.Client()\<close> and
  \<^verbatim>\<open>storage_client.bucket(...)\<close> raise.
\<close>

definition gcs_init :: "string option \<Rightarrow> bool \<Rightarrow> bool \<Rightarrow> bool \<times> bool" where
  "gcs_init MASTER_LOG_BUCKET client_raises bucket_raises =
     (case MASTER_LOG_BUCKET of
        None \<Rightarrow> (False, False)
      | Some name \<Rightarrow>
          if name = [] then (False, False)
          else if client_raises then (False, False)
          else if bucket_raises then (True, False)
          else (True, True))"

definition startswith :: "string \<Rightarrow> string \<Rightarrow> bool" where
  "startswith s p = (take (length p) s = p)"

definition endswith :: "string \<Rightarrow> string \<Rightarrow> bool" where
  "endswith s p = (length p \<le> length s \<and> drop (length s - length p) s = p)"

definition emit :: "event \<Rightarrow> world \<Rightarrow> world" where
  "emit ev w = w\<lparr>trace := trace w @ [ev]\<rparr>"

definition put :: "string \<Rightarrow> string \<Rightarrow> world \<Rightarrow> world" where
  "put n text w =
     w\<lparr>objects := AList.update n \<lparr>content = text, generation = Suc (last_generation w)\<rparr> (objects w),
       last_generation := Suc (last_generation w)\<rparr>"

text \<open>\<^verbatim>\<open>bucket.list_blobs(prefix=...)\<close>: the names under the prefix, in the store's order.\<close>

definition list_blobs :: "env \<Rightarrow> string \<Rightarrow> world \<Rightarrow> (error + string list) \<times> world" where
  "list_blobs e pre w =
     (if list_fault e then (Inl StoreError, emit (Listed pre) w)
      else (Inr (filter (\<lambda>n. startswith n pre) (map fst (objects w))), emit (Listed pre) w))"

text \<open>
  \<^verbatim>\<open>blob.download_as_text()\<close>: the object's text, and with it the generation read
  (\<^verbatim>\<open>blob.generation\<close>).
\<close>

definition download_as_text :: "env \<Rightarrow> string \<Rightarrow> world \<Rightarrow> (error + blob) \<times> world" where
  "download_as_text e n w =
     (if read_fault e n then (Inl StoreError, emit (Downloaded n False) w)
      else case map_of (objects w) n of
             None \<Rightarrow> (Inl NotFound, emit (Downloaded n False) w)
           | Some b \<Rightarrow> (Inr b, emit (Downloaded n True) w))"

text \<open>
  The precondition \<^verbatim>\<open>if_generation_match=g\<close>: with \<open>g = 0\<close> the object must not exist
  (``Atomically create; fails if fragment already exists'', as the ingestion path has
  it); otherwise the live object must have generation \<open>g\<close>.
\<close>

definition generation_match :: "blobs \<Rightarrow> string \<Rightarrow> nat \<Rightarrow> bool" where
  "generation_match bs n g =
     (case map_of bs n of
        None \<Rightarrow> g = 0
      | Some b \<Rightarrow> g \<noteq> 0 \<and> generation b = g)"

definition upload_from_string ::
    "bool \<Rightarrow> string \<Rightarrow> string \<Rightarrow> nat option \<Rightarrow> world \<Rightarrow> (error + unit) \<times> world" where
  "upload_from_string fault n text if_generation_match w =
     (if fault then (Inl StoreError, emit (Uploaded n False) w)
      else if (case if_generation_match of
                 None \<Rightarrow> False
               | Some g \<Rightarrow> \<not> generation_match (objects w) n g)
        then (Inl PreconditionFailed, emit (Uploaded n False) w)
      else (Inr (), put n text (emit (Uploaded n True) w)))"

definition copy_blob :: "env \<Rightarrow> string \<Rightarrow> string \<Rightarrow> world \<Rightarrow> (error + unit) \<times> world" where
  "copy_blob e src dst w =
     (if copy_fault e src then (Inl StoreError, emit (Copied src dst False) w)
      else case map_of (objects w) src of
             None \<Rightarrow> (Inl NotFound, emit (Copied src dst False) w)
           | Some b \<Rightarrow> (Inr (), put dst (content b) (emit (Copied src dst True) w)))"

text \<open>
  \<^verbatim>\<open>with storage_client.batch(): for blob in ...: blob.delete()\<close>. Inside the block a
  \<^verbatim>\<open>blob.delete()\<close> only defers its request. When the block ends without an exception
  the deferred deletions are sent together (\<open>finish_batch\<close>): each is carried out or
  fails on its own, and the block raises when any of them failed. A batch takes at most
  \<open>MAX_BATCH_SIZE\<close> deferred requests: the \<^verbatim>\<open>blob.delete()\<close> after that raises
  \<^verbatim>\<open>ValueError\<close> inside the block, which then ends without sending anything. The result
  is whether the block ended without raising.
\<close>

definition MAX_BATCH_SIZE :: nat where
  "MAX_BATCH_SIZE = 1000"

fun finish_batch :: "env \<Rightarrow> string list \<Rightarrow> world \<Rightarrow> bool \<times> world" where
  "finish_batch e [] w = (True, w)"
| "finish_batch e (n # ns) w =
     (if delete_fault e n \<or> map_of (objects w) n = None
      then (case finish_batch e ns (emit (Deleted n False) w) of (ok, w') \<Rightarrow> (False, w'))
      else finish_batch e ns ((emit (Deleted n True) w)\<lparr>objects := AList.delete n (objects w)\<rparr>))"

definition batch_delete :: "env \<Rightarrow> string list \<Rightarrow> world \<Rightarrow> bool \<times> world" where
  "batch_delete e ns w =
     (if MAX_BATCH_SIZE < length ns then (False, w) else finish_batch e ns w)"

section \<open>The consolidation pass\<close>

text \<open>
  Step 2 of \<^verbatim>\<open>handle_consolidation\<close>: the entries of the master log and the generation
  for the conditional write. A missing object gives no entries and generation 0; text
  for which the decoder raises \<^verbatim>\<open>json.JSONDecodeError\<close>, or which decodes to something
  that is not a list, gives no entries (the generation was already taken); any other
  exception, of the download or of the decoder, is raised again.
\<close>

definition read_master :: "env \<Rightarrow> world \<Rightarrow> (error + json list \<times> nat) \<times> world" where
  "read_master e w =
     (case download_as_text e MASTER_LOG_FILE_NAME w of
        (Inl err, w') \<Rightarrow> (if err = NotFound then Inr ([], 0) else Inl err, w')
      | (Inr b, w') \<Rightarrow>
          (case loads e (content b) of
             Inl err \<Rightarrow> (if err = JSONDecodeError then Inr ([], generation b) else Inl err, w')
           | Inr all_logs \<Rightarrow>
               (Inr (case all_logs of JArr xs \<Rightarrow> xs | _ \<Rightarrow> [], generation b), w')))"

text \<open>
  Step 3, the loop over the listed fragments: a name ending in a slash is skipped
  without a request; a fragment whose download or decoding raises is skipped with a
  warning; the others add their entry and their name.
\<close>

fun process_fragments ::
    "env \<Rightarrow> string list \<Rightarrow> json list \<Rightarrow> string list \<Rightarrow> world
      \<Rightarrow> (json list \<times> string list) \<times> world" where
  "process_fragments e [] new_entries valid_fragment_blobs w =
     ((new_entries, valid_fragment_blobs), w)"
| "process_fragments e (n # ns) new_entries valid_fragment_blobs w =
     (if endswith n ''/'' then process_fragments e ns new_entries valid_fragment_blobs w
      else case download_as_text e n w of
             (Inl err, w') \<Rightarrow> process_fragments e ns new_entries valid_fragment_blobs w'
           | (Inr b, w') \<Rightarrow>
               (case loads e (content b) of
                  Inl err \<Rightarrow> process_fragments e ns new_entries valid_fragment_blobs w'
                | Inr fragment_data \<Rightarrow>
                    process_fragments e ns (new_entries @ [fragment_data])
                      (valid_fragment_blobs @ [n]) w'))"

text \<open>
  Step 4. \<^verbatim>\<open>(len(current_content_str.encode('utf-8')) / 1024) > MAX_LOG_SIZE_KB\<close>: the
  quotient is exact (a division by a power of two), so real arithmetic models it.
\<close>

definition should_rotate :: "json list \<Rightarrow> bool" where
  "should_rotate all_logs =
     (real (utf8_length (dumps (JArr all_logs))) / 1024 > real MAX_LOG_SIZE_KB)"

text \<open>
  The result of step 4: what to archive (\<^verbatim>\<open>logs_to_archive\<close>, decoded again from the
  serialisation just measured), what to write, and the generation to match.
\<close>

definition rotation ::
    "env \<Rightarrow> json list \<Rightarrow> nat \<Rightarrow> json list \<Rightarrow> error + (json option \<times> json list \<times> nat)" where
  "rotation e all_logs gen new_entries =
     (if should_rotate all_logs
      then (case loads e (dumps (JArr all_logs)) of
              Inl err \<Rightarrow> Inl err
            | Inr logs_to_archive \<Rightarrow> Inr (Some logs_to_archive, new_entries, 0))
      else Inr (None, all_logs @ new_entries, gen))"

text \<open>Step 6: the archive object, best effort.\<close>

definition archive_name :: "env \<Rightarrow> string" where
  "archive_name e = ''archive/master_log_'' @ utcnow e @ ''.json''"

definition archive_old_log :: "env \<Rightarrow> json option \<Rightarrow> world \<Rightarrow> world" where
  "archive_old_log e logs_to_archive w =
     (case logs_to_archive of
        None \<Rightarrow> w
      | Some v \<Rightarrow>
          if truthy v
          then snd (upload_from_string (archive_fault e) (archive_name e) (dumps_indent2 v) None w)
          else w)"

text \<open>Step 7: copy every consumed fragment, then delete the originals in one batch.\<close>

definition processed_name :: "string \<Rightarrow> string" where
  "processed_name n = PROCESSED_FRAGMENTS_PREFIX @ drop (length FRAGMENTS_PREFIX) n"

fun copy_all :: "env \<Rightarrow> string list \<Rightarrow> world \<Rightarrow> bool \<times> world" where
  "copy_all e [] w = (True, w)"
| "copy_all e (n # ns) w =
     (case copy_blob e n (processed_name n) w of
        (Inl err, w') \<Rightarrow> (False, w')
      | (Inr u, w') \<Rightarrow> copy_all e ns w')"

definition retire_fragments :: "env \<Rightarrow> string list \<Rightarrow> world \<Rightarrow> nat \<times> world" where
  "retire_fragments e valid_fragment_blobs w =
     (case copy_all e valid_fragment_blobs w of
        (False, w') \<Rightarrow> (0, w')
      | (True, w') \<Rightarrow>
          (case batch_delete e valid_fragment_blobs w' of
             (False, w'') \<Rightarrow> (0, w'')
           | (True, w'') \<Rightarrow> (length valid_fragment_blobs, w'')))"

definition complete_message :: "nat \<Rightarrow> string" where
  "complete_message processed_count =
     ''Consolidation complete. Processed '' @ str_nat processed_count @ '' fragments.''"

text \<open>
  The bucket as the conditional write finds it: another writer may have changed the
  objects and moved the generation counter since this run's reads.
\<close>

definition interfered :: "env \<Rightarrow> world \<Rightarrow> world" where
  "interfered e w =
     (case concurrent e (objects w, last_generation w) of
        (bs, g) \<Rightarrow> w\<lparr>objects := bs, last_generation := g\<rparr>)"

text \<open>Steps 4 to 7, from the sorted new entries on.\<close>

definition write_and_retire ::
    "env \<Rightarrow> json list \<Rightarrow> nat \<Rightarrow> json list \<Rightarrow> string list \<Rightarrow> world
      \<Rightarrow> (error + string \<times> nat) \<times> world" where
  "write_and_retire e all_logs gen new_entries valid_fragment_blobs w =
     (case rotation e all_logs gen new_entries of
        Inl err \<Rightarrow> (Inl err, w)
      | Inr (logs_to_archive, logs_for_main_file, g) \<Rightarrow>
          (case upload_from_string (write_fault e) MASTER_LOG_FILE_NAME
                  (dumps_indent2 (JArr logs_for_main_file)) (Some g)
                  (interfered e w) of
             (Inl err, w') \<Rightarrow> (Inl err, w')
           | (Inr u, w') \<Rightarrow>
               (case retire_fragments e valid_fragment_blobs
                       (archive_old_log e logs_to_archive w') of
                  (processed_count, w'') \<Rightarrow>
                    (Inr (complete_message processed_count, 200), w''))))"

text \<open>
  \<^verbatim>\<open>handle_consolidation\<close>: \<open>Inl\<close> is an exception that leaves the function, \<open>Inr\<close>
  the returned message and status code.
\<close>

definition handle_consolidation :: "env \<Rightarrow> world \<Rightarrow> (error + string \<times> nat) \<times> world" where
  "handle_consolidation e w =
     (if \<not> bucket e \<or> \<not> storage_client e then (Inr (''Service misconfigured'', 204), w)
      else case list_blobs e FRAGMENTS_PREFIX w of
             (Inl err, w1) \<Rightarrow> (Inl err, w1)
           | (Inr fragment_blobs, w1) \<Rightarrow>
               if fragment_blobs = [] then (Inr (''No fragments to consolidate.'', 200), w1)
               else (case read_master e w1 of
                       (Inl err, w2) \<Rightarrow> (Inl err, w2)
                     | (Inr (all_logs, gen), w2) \<Rightarrow>
                         (case process_fragments e fragment_blobs [] [] w2 of
                            ((new_entries, valid_fragment_blobs), w3) \<Rightarrow>
                              if new_entries = []
                              then (Inr (''No valid entries found in fragments.'', 200), w3)
                              else (case sort_entries new_entries of
                                      Inl err \<Rightarrow> (Inl err, w3)
                                    | Inr sorted_entries \<Rightarrow>
                                        write_and_retire e all_logs gen sorted_entries
                                          valid_fragment_blobs w3))))"

section \<open>The run, described\<close>

text \<open>
  What a run reads, as functions of the bucket it starts from: the listed fragment
  names, the entry each fragment decodes to (if it does), the fragments consumed, the
  new entries in listing order, and the master log's entries and generation.
\<close>

fun is_read :: "event \<Rightarrow> bool" where
  "is_read (Listed p) = True"
| "is_read (Downloaded n ok) = True"
| "is_read ev = False"

definition listing :: "blobs \<Rightarrow> string list" where
  "listing bs = filter (\<lambda>n. startswith n FRAGMENTS_PREFIX) (map fst bs)"

definition fragment_entry :: "env \<Rightarrow> blobs \<Rightarrow> string \<Rightarrow> json option" where
  "fragment_entry e bs n =
     (if endswith n ''/'' \<or> read_fault e n then None
      else case map_of bs n of
             None \<Rightarrow> None
           | Some b \<Rightarrow> (case loads e (content b) of Inl err \<Rightarrow> None | Inr v \<Rightarrow> Some v))"

definition consumed :: "env \<Rightarrow> blobs \<Rightarrow> string list" where
  "consumed e bs = filter (\<lambda>n. fragment_entry e bs n \<noteq> None) (listing bs)"

definition decoded_entries :: "env \<Rightarrow> blobs \<Rightarrow> json list" where
  "decoded_entries e bs = List.map_filter (fragment_entry e bs) (listing bs)"

definition prior_generation :: "blobs \<Rightarrow> nat" where
  "prior_generation bs = (case map_of bs MASTER_LOG_FILE_NAME of None \<Rightarrow> 0 | Some b \<Rightarrow> generation b)"

definition prior_entries :: "env \<Rightarrow> blobs \<Rightarrow> json list" where
  "prior_entries e bs =
     (case map_of bs MASTER_LOG_FILE_NAME of
        None \<Rightarrow> []
      | Some b \<Rightarrow> (case loads e (content b) of Inr (JArr xs) \<Rightarrow> xs | _ \<Rightarrow> []))"

text \<open>
  The exception that reading the master log raises out of the run, if any: a failed
  download, or an exception of the decoder other than \<^verbatim>\<open>json.JSONDecodeError\<close>.
\<close>

definition master_read_error :: "env \<Rightarrow> blobs \<Rightarrow> error option" where
  "master_read_error e bs =
     (if read_fault e MASTER_LOG_FILE_NAME then Some StoreError
      else case map_of bs MASTER_LOG_FILE_NAME of
             None \<Rightarrow> None
           | Some b \<Rightarrow>
               (case loads e (content b) of
                  Inl err \<Rightarrow> if err = JSONDecodeError then None else Some err
                | Inr v \<Rightarrow> None))"

text \<open>
  The timestamp of an entry as the sort sees it, when it is a string (the default for a
  dictionary without one), and what it means for a list of entries to be in
  non-decreasing timestamp order.
\<close>

definition entry_timestamp :: "json \<Rightarrow> string option" where
  "entry_timestamp x =
     (case timestamp_key x of
        Inr (JStr s) \<Rightarrow> Some s
      | _ \<Rightarrow> None)"

definition in_timestamp_order :: "json list \<Rightarrow> bool" where
  "in_timestamp_order xs =
     (list_all (\<lambda>x. entry_timestamp x \<noteq> None) xs
      \<and> sorted (map (\<lambda>x. the (entry_timestamp x)) xs))"

definition keyed :: "json \<Rightarrow> json \<times> json" where
  "keyed x = (JStr (the (entry_timestamp x)), x)"

text \<open>
  Two buckets that differ by one object only: \<open>without n w v\<close> says that \<open>v\<close> is
  \<open>w\<close> with the object named \<open>n\<close> taken out. The other writer of an environment
  is oblivious of \<open>n\<close> when it acts the same on both.
\<close>

definition without :: "string \<Rightarrow> world \<Rightarrow> world \<Rightarrow> bool" where
  "without n w v = (objects v = AList.delete n (objects w) \<and> last_generation v = last_generation w)"

definition oblivious :: "env \<Rightarrow> string \<Rightarrow> bool" where
  "oblivious e n =
     (\<forall>bs g. concurrent e (AList.delete n bs, g)
        = (AList.delete n (fst (concurrent e (bs, g))), snd (concurrent e (bs, g))))"

section \<open>Concrete runs\<close>

text \<open>
  An environment in which nothing fails and nobody else writes; the decoder is given by
  a table from texts to the values they decode to, every other text failing to parse.
\<close>

definition decode_table :: "(string \<times> json) list \<Rightarrow> string \<Rightarrow> error + json" where
  "decode_table table s = (case map_of table s of None \<Rightarrow> Inl JSONDecodeError | Some v \<Rightarrow> Inr v)"

definition plain_env :: "(string \<times> json) list \<Rightarrow> env" where
  "plain_env table =
     \<lparr>storage_client = True, bucket = True, loads = decode_table table,
      list_fault = False, read_fault = (\<lambda>n. False), concurrent = (\<lambda>s. s),
      write_fault = False, archive_fault = False, copy_fault = (\<lambda>n. False),
      delete_fault = (\<lambda>n. False), utcnow = ''2024-01-03_00-00-00''\<rparr>"

definition entry_a :: json where
  "entry_a = JObj [(''timestamp'', JStr ''2024-01-01T00:00:01Z''), (''message'', JStr ''a'')]"

definition entry_b :: json where
  "entry_b = JObj [(''timestamp'', JStr ''2024-01-01T00:00:00Z''), (''message'', JStr ''b'')]"

definition two_fragments :: world where
  "two_fragments =
     \<lparr>objects = [(''fragments/2024-01-01T00-00-01Z_m1.json'', \<lparr>content = dumps entry_a, generation = 1\<rparr>),
                 (''fragments/2024-01-01T00-00-00Z_m2.json'', \<lparr>content = dumps entry_b, generation = 2\<rparr>)],
      last_generation = 2, trace = []\<rparr>"

definition table_ab :: "(string \<times> json) list" where
  "table_ab = [(dumps entry_a, entry_a), (dumps entry_b, entry_b)]"

text \<open>A bucket with a master log and a single fragment whose text is not JSON.\<close>

definition broken_fragment :: world where
  "broken_fragment =
     \<lparr>objects = [(''master_log.json'', \<lparr>content = ''[]'', generation = 1\<rparr>),
                 (''fragments/2024-01-01T00-00-02Z_m3.json'', \<lparr>content = ''{{'', generation = 2\<rparr>)],
      last_generation = 2, trace = []\<rparr>"

text \<open>Another writer that replaces the master log with an empty list.\<close>

definition other_writer :: "blobs \<times> nat \<Rightarrow> blobs \<times> nat" where
  "other_writer s =
     (AList.update ''master_log.json'' \<lparr>content = ''[]'', generation = Suc (snd s)\<rparr> (fst s),
      Suc (snd s))"

text \<open>
  A bucket whose master log holds the entry of 00:00:01, with one pending fragment whose
  entry is of 00:00:00.
\<close>

definition late_fragment :: world where
  "late_fragment =
     \<lparr>objects = [(''master_log.json'', \<lparr>content = dumps_indent2 (JArr [entry_a]), generation = 1\<rparr>),
                 (''fragments/2024-01-01T00-00-00Z_m2.json'', \<lparr>content = dumps entry_b, generation = 2\<rparr>)],
      last_generation = 2, trace = []\<rparr>"

definition table_late :: "(string \<times> json) list" where
  "table_late = [(dumps_indent2 (JArr [entry_a]), JArr [entry_a]), (dumps entry_b, entry_b)]"

text \<open>
  A bucket whose master log holds one entry with a message of 204800 characters, and one
  pending fragment. The decoder knows the stored text and the one-line serialisation
  that step 4 decodes again.
\<close>

definition big_message :: string where
  "big_message = replicate 204800 CHR ''x''"

definition big_entry :: json where
  "big_entry = JObj [(''timestamp'', JStr ''2023-12-31T00:00:00Z''), (''message'', JStr big_message)]"

definition oversize_master :: world where
  "oversize_master =
     \<lparr>objects = [(''master_log.json'', \<lparr>content = dumps_indent2 (JArr [big_entry]), generation = 1\<rparr>),
                 (''fragments/2024-01-01T00-00-00Z_m2.json'', \<lparr>content = dumps entry_b, generation = 2\<rparr>)],
      last_generation = 2, trace = []\<rparr>"

definition table_big :: "(string \<times> json) list" where
  "table_big = [(dumps_indent2 (JArr [big_entry]), JArr [big_entry]),
                (dumps (JArr [big_entry]), JArr [big_entry]),
                (dumps entry_b, entry_b)]"

text \<open>The two fragments, and between them one whose text is not JSON.\<close>

definition mixed_fragments :: world where
  "mixed_fragments =
     \<lparr>objects = [(''fragments/2024-01-01T00-00-01Z_m1.json'', \<lparr>content = dumps entry_a, generation = 1\<rparr>),
                 (''fragments/2024-01-01T00-00-02Z_m3.json'', \<lparr>content = ''{{'', generation = 2\<rparr>),
                 (''fragments/2024-01-01T00-00-00Z_m2.json'', \<lparr>content = dumps entry_b, generation = 3\<rparr>)],
      last_generation = 3, trace = []\<rparr>"

text \<open>
  A valid fragment, and after it one whose text is the JSON number 0: it parses, but not
  to an object.
\<close>

definition number_fragment :: world where
  "number_fragment =
     \<lparr>objects = [(''fragments/2024-01-01T00-00-01Z_m1.json'', \<lparr>content = dumps entry_a, generation = 1\<rparr>),
                 (''fragments/2024-01-01T00-00-03Z_m4.json'', \<lparr>content = ''0'', generation = 2\<rparr>)],
      last_generation = 2, trace = []\<rparr>"

definition table_number :: "(string \<times> json) list" where
  "table_number = [(dumps entry_a, entry_a), (''0'', JNum 0)]"

text \<open>
  A bucket whose master log is 100000 opening brackets, on which the decoder gives up
  with \<^verbatim>\<open>RecursionError\<close>, and a single fragment whose text is not JSON.
\<close>

definition deeply_nested :: string where
  "deeply_nested = replicate 100000 CHR ''[''"

definition nested_master :: world where
  "nested_master =
     \<lparr>objects = [(''master_log.json'', \<lparr>content = deeply_nested, generation = 1\<rparr>),
                 (''fragments/2024-01-01T00-00-02Z_m3.json'', \<lparr>content = ''{{'', generation = 2\<rparr>)],
      last_generation = 2, trace = []\<rparr>"

definition recursion_env :: env where
  "recursion_env =
     (plain_env [])\<lparr>loads := (\<lambda>s. if s = deeply_nested then Inl RecursionError
                                  else Inl JSONDecodeError)\<rparr>"

text \<open>An environment in which the download of the master log fails.\<close>

definition master_unreadable :: env where
  "master_unreadable = (plain_env [])\<lparr>read_fault := (\<lambda>n. n = ''master_log.json'')\<rparr>"

text \<open>
  A bucket whose master log holds one entry with a message of 204700 characters, so that
  its one-line serialisation is 204754 bytes, under the threshold of 204800, and one
  pending fragment. The decoder knows the stored text, the text of the master log with
  the fragment's entry appended, and the one-line serialisation of the latter.
\<close>

definition long_message :: string where
  "long_message = replicate 204700 CHR ''x''"

definition long_entry :: json where
  "long_entry = JObj [(''timestamp'', JStr ''2023-12-31T00:00:00Z''), (''message'', JStr long_message)]"

definition nearly_full_master :: world where
  "nearly_full_master =
     \<lparr>objects = [(''master_log.json'', \<lparr>content = dumps_indent2 (JArr [long_entry]), generation = 1\<rparr>),
                 (''fragments/2024-01-01T00-00-00Z_m2.json'', \<lparr>content = dumps entry_b, generation = 2\<rparr>)],
      last_generation = 2, trace = []\<rparr>"

definition table_nearly_full :: "(string \<times> json) list" where
  "table_nearly_full = [(dumps entry_b, entry_b),
                        (dumps_indent2 (JArr [long_entry]), JArr [long_entry]),
                        (dumps_indent2 (JArr [long_entry, entry_b]), JArr [long_entry, entry_b]),
                        (dumps (JArr [long_entry, entry_b]), JArr [long_entry, entry_b])]"

text \<open>The first run: its copies succeed and every deletion of its batch fails.\<close>

definition deletes_fail :: env where
  "deletes_fail = (plain_env table_nearly_full)\<lparr>delete_fault := (\<lambda>n. True)\<rparr>"
section \<open>The phases of a run\<close>

lemma emit_simps [simp]:
  "objects (emit ev w) = objects w"
  "last_generation (emit ev w) = last_generation w"
  "trace (emit ev w) = trace w @ [ev]"
  by (simp_all add: emit_def)

lemma put_simps [simp]:
  "trace (put n t w) = trace w"
  "last_generation (put n t w) = Suc (last_generation w)"
  "objects (put n t w) =
     AList.update n \<lparr>content = t, generation = Suc (last_generation w)\<rparr> (objects w)"
  by (simp_all add: put_def)

lemma download_frame:
  assumes "download_as_text e n w = (r, w')"
  shows "objects w' = objects w" and "last_generation w' = last_generation w"
    and "trace w' = trace w @ [Downloaded n (\<not> isl r)]"
  using assms by (auto simp: download_as_text_def split: if_splits option.splits)

lemma download_result:
  "fst (download_as_text e n w) =
     (if read_fault e n then Inl StoreError
      else case map_of (objects w) n of None \<Rightarrow> Inl NotFound | Some b \<Rightarrow> Inr b)"
  by (simp add: download_as_text_def split: option.splits)

lemma process_fragments_result:
  "fst (process_fragments e ns acc_e acc_v w) =
     (acc_e @ List.map_filter (fragment_entry e (objects w)) ns,
      acc_v @ filter (\<lambda>n. fragment_entry e (objects w) n \<noteq> None) ns)"
proof (induction ns arbitrary: acc_e acc_v w)
  case Nil
  show ?case by (simp add: List.map_filter_simps)
next
  case (Cons n ns)
  obtain r w' where d: "download_as_text e n w = (r, w')" by (cases "download_as_text e n w")
  have o: "objects w' = objects w" using download_frame(1)[OF d] .
  have r: "r = (if read_fault e n then Inl StoreError
      else case map_of (objects w) n of None \<Rightarrow> Inl NotFound | Some b \<Rightarrow> Inr b)"
    using download_result[of e n w] d by simp
  have step: "process_fragments e (n # ns) acc_e acc_v w =
      (case fragment_entry e (objects w) n of
         None \<Rightarrow> process_fragments e ns acc_e acc_v (if endswith n ''/'' then w else w')
       | Some x \<Rightarrow> process_fragments e ns (acc_e @ [x]) (acc_v @ [n]) w')"
    using d r by (auto simp: fragment_entry_def split: option.splits sum.splits)
  show ?case
  proof (cases "fragment_entry e (objects w) n")
    case None
    then show ?thesis
      using step Cons.IH[of acc_e acc_v w] Cons.IH[of acc_e acc_v w'] o
      by (simp add: List.map_filter_simps)
  next
    case (Some x)
    then show ?thesis
      using step Cons.IH[of "acc_e @ [x]" "acc_v @ [n]" w'] o
      by (simp add: List.map_filter_simps)
  qed
qed

lemma process_fragments_frame:
  assumes "process_fragments e ns acc_e acc_v w = (res, w')"
  shows "objects w' = objects w \<and> last_generation w' = last_generation w
    \<and> (\<exists>evs. trace w' = trace w @ evs \<and> list_all is_read evs)"
  using assms
proof (induction ns arbitrary: acc_e acc_v w)
  case Nil
  then show ?case by simp
next
  case (Cons n ns)
  obtain r w1 where d: "download_as_text e n w = (r, w1)" by (cases "download_as_text e n w")
  note f = download_frame[OF d]
  show ?case
  proof (cases "endswith n ''/''")
    case True
    with Cons show ?thesis by simp
  next
    case False
    then obtain a v where "process_fragments e ns a v w1 = (res, w')"
      using Cons.prems d by (auto split: sum.splits option.splits)
    from Cons.IH[OF this] f show ?thesis by auto
  qed
qed


lemma list_blobs_frame:
  assumes "list_blobs e p w = (r, w')"
  shows "objects w' = objects w" and "last_generation w' = last_generation w"
    and "trace w' = trace w @ [Listed p]"
    and "r = (if list_fault e then Inl StoreError
              else Inr (filter (\<lambda>n. startswith n p) (map fst (objects w))))"
  using assms by (auto simp: list_blobs_def split: if_splits)

lemma read_master_frame:
  assumes "read_master e w = (r, w')"
  shows "objects w' = objects w" and "last_generation w' = last_generation w"
    and "\<exists>ok. trace w' = trace w @ [Downloaded MASTER_LOG_FILE_NAME ok]"
    and "r = (case master_read_error e (objects w) of
                Some err \<Rightarrow> Inl err
              | None \<Rightarrow> Inr (prior_entries e (objects w), prior_generation (objects w)))"
proof -
  obtain d w1 where d: "download_as_text e MASTER_LOG_FILE_NAME w = (d, w1)"
    by (cases "download_as_text e MASTER_LOG_FILE_NAME w")
  note f = download_frame[OF d]
  have w': "w' = w1" using assms d by (auto simp: read_master_def split: sum.splits)
  show "objects w' = objects w" "last_generation w' = last_generation w"
    "\<exists>ok. trace w' = trace w @ [Downloaded MASTER_LOG_FILE_NAME ok]"
    using f w' by auto
  have dr: "d = (if read_fault e MASTER_LOG_FILE_NAME then Inl StoreError
      else case map_of (objects w) MASTER_LOG_FILE_NAME of None \<Rightarrow> Inl NotFound | Some b \<Rightarrow> Inr b)"
    using download_result[of e MASTER_LOG_FILE_NAME w] d by simp
  show "r = (case master_read_error e (objects w) of
                Some err \<Rightarrow> Inl err
              | None \<Rightarrow> Inr (prior_entries e (objects w), prior_generation (objects w)))"
    using assms d dr
    by (auto simp: read_master_def prior_entries_def prior_generation_def master_read_error_def
        split: sum.splits option.splits json.splits if_splits)
qed

lemma handle_consolidation_unfold:
  assumes "bucket e" and "storage_client e"
  shows "\<exists>w3 evs. objects w3 = objects w \<and> last_generation w3 = last_generation w
      \<and> trace w3 = trace w @ evs \<and> list_all is_read evs
      \<and> handle_consolidation e w =
          (if list_fault e then (Inl StoreError, w3)
           else if listing (objects w) = [] then (Inr (''No fragments to consolidate.'', 200), w3)
           else if master_read_error e (objects w) \<noteq> None
             then (Inl (the (master_read_error e (objects w))), w3)
           else if decoded_entries e (objects w) = []
             then (Inr (''No valid entries found in fragments.'', 200), w3)
           else case sort_entries (decoded_entries e (objects w)) of
                  Inl err \<Rightarrow> (Inl err, w3)
                | Inr sorted_entries \<Rightarrow>
                    write_and_retire e (prior_entries e (objects w))
                      (prior_generation (objects w)) sorted_entries
                      (consumed e (objects w)) w3)"
proof -
  obtain r1 w1 where l: "list_blobs e FRAGMENTS_PREFIX w = (r1, w1)"
    by (cases "list_blobs e FRAGMENTS_PREFIX w")
  note lf = list_blobs_frame[OF l]
  obtain r2 w2 where m: "read_master e w1 = (r2, w2)" by (cases "read_master e w1")
  note mf = read_master_frame[OF m]
  obtain r3 w3 where p: "process_fragments e (listing (objects w)) [] [] w2 = (r3, w3)"
    by (cases "process_fragments e (listing (objects w)) [] [] w2")
  have pf: "objects w3 = objects w2 \<and> last_generation w3 = last_generation w2
    \<and> (\<exists>evs. trace w3 = trace w2 @ evs \<and> list_all is_read evs)"
    using process_fragments_frame[OF p] .
  have r3: "r3 = (decoded_entries e (objects w), consumed e (objects w))"
    using process_fragments_result[of e "listing (objects w)" "[]" "[]" w2] p mf(1) lf(1)
    by (simp add: decoded_entries_def consumed_def)
  have r1: "r1 = (if list_fault e then Inl StoreError else Inr (listing (objects w)))"
    using lf(4) by (simp add: listing_def)
  have r2: "r2 = (if master_read_error e (objects w) \<noteq> None
              then Inl (the (master_read_error e (objects w)))
              else Inr (prior_entries e (objects w), prior_generation (objects w)))"
    using mf(4) lf(1) by (simp split: option.splits)
  obtain ok where t2: "trace w2 = trace w @ [Listed FRAGMENTS_PREFIX, Downloaded MASTER_LOG_FILE_NAME ok]"
    using mf(3) lf(3) by auto
  obtain evs where t3: "trace w3 = trace w2 @ evs" "list_all is_read evs" using pf by blast
  have H: "handle_consolidation e w =
      (if list_fault e then (Inl StoreError, w1)
       else if listing (objects w) = [] then (Inr (''No fragments to consolidate.'', 200), w1)
       else if master_read_error e (objects w) \<noteq> None
             then (Inl (the (master_read_error e (objects w))), w2)
       else if decoded_entries e (objects w) = []
         then (Inr (''No valid entries found in fragments.'', 200), w3)
       else case sort_entries (decoded_entries e (objects w)) of
              Inl err \<Rightarrow> (Inl err, w3)
            | Inr sorted_entries \<Rightarrow>
                write_and_retire e (prior_entries e (objects w))
                  (prior_generation (objects w)) sorted_entries
                  (consumed e (objects w)) w3)"
    using assms by (simp add: handle_consolidation_def l r1 m r2 p r3 split: sum.splits)
  consider (a) "list_fault e \<or> listing (objects w) = []"
    | (b) "\<not> (list_fault e \<or> listing (objects w) = [])" "master_read_error e (objects w) \<noteq> None"
    | (c) "\<not> (list_fault e \<or> listing (objects w) = [])" "master_read_error e (objects w) = None"
    by blast
  then show ?thesis
  proof cases
    case a
    show ?thesis
      apply (rule exI[of _ w1], rule exI[of _ "[Listed FRAGMENTS_PREFIX]"])
      using a H lf by auto
  next
    case b
    show ?thesis
      apply (rule exI[of _ w2], rule exI[of _ "[Listed FRAGMENTS_PREFIX, Downloaded MASTER_LOG_FILE_NAME ok]"])
      using b H lf mf t2 by auto
  next
    case c
    show ?thesis
      apply (rule exI[of _ w3], rule exI[of _ "[Listed FRAGMENTS_PREFIX, Downloaded MASTER_LOG_FILE_NAME ok] @ evs"])
      using c H lf mf t2 t3 pf by auto
  qed
qed


subsection \<open>Sizes of the two serialisations\<close>

lemma utf8_length_simps [simp]:
  "utf8_length [] = 0"
  "utf8_length (c # s) = (if (of_char c :: nat) < 128 then 1 else 2) + utf8_length s"
  "utf8_length (s @ t) = utf8_length s + utf8_length t"
  by (simp_all add: utf8_length_def)

lemma utf8_length_newline_indent [simp]: "utf8_length (newline_indent l) = 1 + 2 * l"
  by (induction l) (simp_all add: newline_indent_def utf8_length_def)




lemma should_rotate_iff: "should_rotate all_logs \<longleftrightarrow> 204800 < utf8_length (dumps (JArr all_logs))"
proof -
  have "(real n / 1024 > 200) = (204800 < n)" for n :: nat
    by (simp add: field_simps)
  then show ?thesis unfolding should_rotate_def MAX_LOG_SIZE_KB_def by simp
qed


subsection \<open>The write, the archive and the retirement\<close>

lemma upload_rejected:
  assumes "upload_from_string fault n text pre w = (Inl err, w')"
  shows "w' = emit (Uploaded n False) w"
    and "fault \<or> (\<exists>g. pre = Some g \<and> \<not> generation_match (objects w) n g)"
    and "err = (if fault then StoreError else PreconditionFailed)"
  using assms by (auto simp: upload_from_string_def split: if_splits option.splits)

lemma upload_accepted:
  assumes "upload_from_string fault n text pre w = (Inr u, w')"
  shows "w' = put n text (emit (Uploaded n True) w)"
    and "\<not> fault" and "\<And>g. pre = Some g \<Longrightarrow> generation_match (objects w) n g"
  using assms by (auto simp: upload_from_string_def split: if_splits option.splits)

lemma upload_stale:
  assumes "\<not> generation_match (objects w) n g"
  shows "\<exists>err. upload_from_string fault n text (Some g) w = (Inl err, emit (Uploaded n False) w)
     \<and> err = (if fault then StoreError else PreconditionFailed)"
  using assms by (simp add: upload_from_string_def)

lemma map_of_update_other: "m \<noteq> n \<Longrightarrow> map_of (AList.update n v bs) m = map_of bs m"
  by (simp add: update_conv')

lemma map_of_update_same: "map_of (AList.update n v bs) n = Some v"
  by (simp add: update_conv')

lemma map_of_delete_other: "m \<noteq> n \<Longrightarrow> map_of (AList.delete n bs) m = map_of bs m"
  by (simp add: delete_conv')

lemma map_of_delete_same: "map_of (AList.delete n bs) n = None"
  by (simp add: delete_conv')

lemma copy_all_trace:
  assumes "copy_all e ns w = (ok, w')"
  shows "\<exists>cs. trace w' = trace w @ cs
     \<and> (\<forall>ev \<in> set cs. \<exists>n c. ev = Copied n (processed_name n) c \<and> n \<in> set ns)
     \<and> (ok \<longrightarrow> cs = map (\<lambda>n. Copied n (processed_name n) True) ns)
     \<and> (\<not> ok \<longrightarrow> (\<exists>n. Copied n (processed_name n) False \<in> set cs))"
  using assms
proof (induction ns arbitrary: w)
  case Nil
  then show ?case by auto
next
  case (Cons n ns)
  obtain r w1 where c: "copy_blob e n (processed_name n) w = (r, w1)"
    by (cases "copy_blob e n (processed_name n) w")
  show ?case
  proof (cases r)
    case (Inl err)
    then have "w' = w1" "\<not> ok" using Cons.prems c by auto
    moreover have "trace w1 = trace w @ [Copied n (processed_name n) False]"
      using c Inl by (auto simp: copy_blob_def split: if_splits option.splits)
    ultimately show ?thesis by auto
  next
    case (Inr u)
    then have rest: "copy_all e ns w1 = (ok, w')" using Cons.prems c by simp
    have t1: "trace w1 = trace w @ [Copied n (processed_name n) True]"
      using c Inr by (auto simp: copy_blob_def split: if_splits option.splits)
    from Cons.IH[OF rest] obtain cs where cs: "trace w' = trace w1 @ cs"
      "\<forall>ev \<in> set cs. \<exists>n c. ev = Copied n (processed_name n) c \<and> n \<in> set ns"
      "ok \<longrightarrow> cs = map (\<lambda>n. Copied n (processed_name n) True) ns"
      "\<not> ok \<longrightarrow> (\<exists>n. Copied n (processed_name n) False \<in> set cs)" by blast
    show ?thesis
      apply (rule exI[of _ "Copied n (processed_name n) True # cs"])
      using cs t1 by auto
  qed
qed

lemma finish_batch_trace:
  assumes "finish_batch e ns w = (ok, w')"
  shows "\<exists>ds. trace w' = trace w @ ds \<and> length ds = length ns
     \<and> (\<forall>ev \<in> set ds. \<exists>n c. ev = Deleted n c \<and> n \<in> set ns)
     \<and> (ok \<longrightarrow> ds = map (\<lambda>n. Deleted n True) ns)
     \<and> (\<not> ok \<longrightarrow> (\<exists>n. Deleted n False \<in> set ds))"
  using assms
proof (induction ns arbitrary: w ok w')
  case Nil
  then show ?case by auto
next
  case (Cons n ns)
  show ?case
  proof (cases "delete_fault e n \<or> map_of (objects w) n = None")
    case True
    obtain ok1 w1 where r: "finish_batch e ns (emit (Deleted n False) w) = (ok1, w1)"
      by (cases "finish_batch e ns (emit (Deleted n False) w)")
    then have w': "w' = w1" "\<not> ok" using Cons.prems True by auto
    from Cons.IH[OF r] obtain ds where ds: "trace w1 = trace w @ [Deleted n False] @ ds"
      "length ds = length ns" "\<forall>ev \<in> set ds. \<exists>n c. ev = Deleted n c \<and> n \<in> set ns" by auto
    show ?thesis
      apply (rule exI[of _ "Deleted n False # ds"])
      using ds w' by auto
  next
    case False
    then have r: "finish_batch e ns ((emit (Deleted n True) w)\<lparr>objects := AList.delete n (objects w)\<rparr>) = (ok, w')"
      using Cons.prems by (auto split: if_splits)
    from Cons.IH[OF r] obtain ds where ds: "trace w' = trace w @ [Deleted n True] @ ds"
      "length ds = length ns" "\<forall>ev \<in> set ds. \<exists>n c. ev = Deleted n c \<and> n \<in> set ns"
      "ok \<longrightarrow> ds = map (\<lambda>n. Deleted n True) ns"
      "\<not> ok \<longrightarrow> (\<exists>n. Deleted n False \<in> set ds)" by auto
    show ?thesis
      apply (rule exI[of _ "Deleted n True # ds"])
      using ds by auto
  qed
qed

lemma batch_delete_trace:
  assumes "batch_delete e ns w = (ok, w')"
  shows "\<exists>ds. trace w' = trace w @ ds
     \<and> (\<forall>ev \<in> set ds. \<exists>n c. ev = Deleted n c \<and> n \<in> set ns)
     \<and> (ok \<longrightarrow> ds = map (\<lambda>n. Deleted n True) ns)
     \<and> (\<not> ok \<longrightarrow> ns \<noteq> [])"
proof (cases "MAX_BATCH_SIZE < length ns")
  case True
  then have "w' = w" "\<not> ok" "ns \<noteq> []" using assms by (auto simp: batch_delete_def)
  then show ?thesis by auto
next
  case False
  then have f: "finish_batch e ns w = (ok, w')" using assms by (simp add: batch_delete_def)
  from finish_batch_trace[OF f] obtain ds where ds: "trace w' = trace w @ ds"
    "length ds = length ns"
    "\<forall>ev \<in> set ds. \<exists>n c. ev = Deleted n c \<and> n \<in> set ns"
    "ok \<longrightarrow> ds = map (\<lambda>n. Deleted n True) ns"
    "\<not> ok \<longrightarrow> (\<exists>n. Deleted n False \<in> set ds)" by blast
  have "\<not> ok \<longrightarrow> ns \<noteq> []" using ds(2,5) by auto
  with ds(1,3,4) show ?thesis by blast
qed

lemma oversized_batch_sends_nothing:
  "MAX_BATCH_SIZE < length ns \<Longrightarrow> batch_delete e ns w = (False, w)"
  by (simp add: batch_delete_def)

lemma retire_fragments_trace:
  assumes "retire_fragments e vs w = (k, w')"
  shows "\<exists>cs ds. trace w' = trace w @ cs @ ds
     \<and> (\<forall>ev \<in> set cs. \<exists>n c. ev = Copied n (processed_name n) c \<and> n \<in> set vs)
     \<and> (\<forall>ev \<in> set ds. \<exists>n c. ev = Deleted n c \<and> n \<in> set vs)
     \<and> (ds \<noteq> [] \<longrightarrow> cs = map (\<lambda>n. Copied n (processed_name n) True) vs)
     \<and> ((\<exists>n d. Copied n d False \<in> set cs) \<longrightarrow> ds = [])
     \<and> (k = length vs \<longrightarrow> cs = map (\<lambda>n. Copied n (processed_name n) True) vs
                            \<and> ds = map (\<lambda>n. Deleted n True) vs)
     \<and> (k = length vs \<or> k = 0)"
proof -
  obtain ok1 w1 where c: "copy_all e vs w = (ok1, w1)" by (cases "copy_all e vs w")
  from copy_all_trace[OF c] obtain cs where cs: "trace w1 = trace w @ cs"
    "\<forall>ev \<in> set cs. \<exists>n c. ev = Copied n (processed_name n) c \<and> n \<in> set vs"
    "ok1 \<longrightarrow> cs = map (\<lambda>n. Copied n (processed_name n) True) vs"
    "\<not> ok1 \<longrightarrow> (\<exists>n. Copied n (processed_name n) False \<in> set cs)" by blast
  show ?thesis
  proof (cases ok1)
    case False
    then have "w' = w1" "k = 0" using assms c by (auto simp: retire_fragments_def)
    then show ?thesis
      apply -
      apply (rule exI[of _ cs], rule exI[of _ "[]"])
      using cs False by auto
  next
    case True
    obtain ok2 w2 where d: "batch_delete e vs w1 = (ok2, w2)" by (cases "batch_delete e vs w1")
    from batch_delete_trace[OF d] obtain ds where ds: "trace w2 = trace w1 @ ds"
      "\<forall>ev \<in> set ds. \<exists>n c. ev = Deleted n c \<and> n \<in> set vs"
      "ok2 \<longrightarrow> ds = map (\<lambda>n. Deleted n True) vs"
      "\<not> ok2 \<longrightarrow> vs \<noteq> []" by blast
    have w': "w' = w2" "k = (if ok2 then length vs else 0)"
      using assms c d True by (auto simp: retire_fragments_def split: if_splits bool.splits)
    have nof: "\<not> (\<exists>n d. Copied n d False \<in> set cs)" using cs(3) True by auto
    show ?thesis
    proof (cases ok2)
      case True
      show ?thesis
        apply (rule exI[of _ cs], rule exI[of _ ds])
        using cs ds w' \<open>ok1\<close> True nof by auto
    next
      case False
      then have "vs \<noteq> []" using ds(4) by auto
      then have "k \<noteq> length vs" using w' False by auto
      then show ?thesis
        apply -
        apply (rule exI[of _ cs], rule exI[of _ ds])
        using cs ds w' \<open>ok1\<close> False nof by auto
    qed
  qed
qed


lemma copy_all_other:
  assumes "copy_all e ns w = (ok, w')" and "\<And>n. n \<in> set ns \<Longrightarrow> processed_name n \<noteq> m"
  shows "map_of (objects w') m = map_of (objects w) m"
  using assms
proof (induction ns arbitrary: w)
  case Nil
  then show ?case by simp
next
  case (Cons n ns)
  obtain r w1 where c: "copy_blob e n (processed_name n) w = (r, w1)"
    by (cases "copy_blob e n (processed_name n) w")
  have o: "map_of (objects w1) m = map_of (objects w) m"
    using c Cons.prems(2)[of n]
    by (auto simp: copy_blob_def map_of_update_other split: if_splits option.splits)
  show ?case
  proof (cases r)
    case (Inl err)
    then show ?thesis using Cons.prems c o by auto
  next
    case (Inr u)
    then have "copy_all e ns w1 = (ok, w')" using Cons.prems c by simp
    from Cons.IH[OF this] Cons.prems(2) o show ?thesis by simp
  qed
qed

lemma finish_batch_other:
  assumes "finish_batch e ns w = (ok, w')" and "m \<notin> set ns"
  shows "map_of (objects w') m = map_of (objects w) m"
  using assms
proof (induction ns arbitrary: w ok w')
  case Nil
  then show ?case by simp
next
  case (Cons n ns)
  show ?case
  proof (cases "delete_fault e n \<or> map_of (objects w) n = None")
    case True
    obtain ok1 w1 where r: "finish_batch e ns (emit (Deleted n False) w) = (ok1, w1)"
      by (cases "finish_batch e ns (emit (Deleted n False) w)")
    then have "w' = w1" using Cons.prems True by auto
    with Cons.IH[OF r] Cons.prems(2) show ?thesis by simp
  next
    case False
    then have r: "finish_batch e ns ((emit (Deleted n True) w)\<lparr>objects := AList.delete n (objects w)\<rparr>) = (ok, w')"
      using Cons.prems by (auto split: if_splits)
    from Cons.IH[OF r] Cons.prems(2) show ?thesis by (simp add: map_of_delete_other)
  qed
qed

lemma finish_batch_gone:
  assumes "finish_batch e ns w = (True, w')" and "n \<in> set ns"
  shows "map_of (objects w') n = None"
  using assms
proof (induction ns arbitrary: w w')
  case Nil
  then show ?case by simp
next
  case (Cons a ns)
  have nf: "\<not> (delete_fault e a \<or> map_of (objects w) a = None)"
    using Cons.prems(1) by (auto split: if_splits prod.splits)
  then have r: "finish_batch e ns ((emit (Deleted a True) w)\<lparr>objects := AList.delete a (objects w)\<rparr>) = (True, w')"
    using Cons.prems by (auto split: if_splits)
  show ?case
  proof (cases "n \<in> set ns")
    case True
    from Cons.IH[OF r True] show ?thesis .
  next
    case False
    then have "n = a" using Cons.prems(2) by simp
    with finish_batch_other[OF r False] show ?thesis by (simp add: map_of_delete_same)
  qed
qed

lemma batch_delete_other:
  assumes "batch_delete e ns w = (ok, w')" and "m \<notin> set ns"
  shows "map_of (objects w') m = map_of (objects w) m"
proof (cases "MAX_BATCH_SIZE < length ns")
  case True
  then show ?thesis using assms by (auto simp: batch_delete_def)
next
  case False
  then have "finish_batch e ns w = (ok, w')" using assms by (simp add: batch_delete_def)
  from finish_batch_other[OF this assms(2)] show ?thesis .
qed

lemma archive_old_log_frame:
  assumes "archive_old_log e la w = w'"
  shows "\<exists>us. trace w' = trace w @ us \<and> (us = [] \<or> (\<exists>ok. us = [Uploaded (archive_name e) ok]))
      \<and> (la = None \<longrightarrow> us = [])"
    and "m \<noteq> archive_name e \<Longrightarrow> map_of (objects w') m = map_of (objects w) m"
  using assms
  by (auto simp: archive_old_log_def upload_from_string_def map_of_update_other
      split: option.splits if_splits)

lemma retire_fragments_other:
  assumes "retire_fragments e vs w = (k, w')"
    and "m \<notin> set vs" and "\<And>n. n \<in> set vs \<Longrightarrow> processed_name n \<noteq> m"
  shows "map_of (objects w') m = map_of (objects w) m"
proof -
  obtain ok1 w1 where c: "copy_all e vs w = (ok1, w1)" by (cases "copy_all e vs w")
  obtain ok2 w2 where d: "batch_delete e vs w1 = (ok2, w2)" by (cases "batch_delete e vs w1")
  have "w' = w1 \<or> w' = w2"
    using assms(1) c d by (auto simp: retire_fragments_def split: bool.splits if_splits)
  then show ?thesis
    using copy_all_other[OF c assms(3)] batch_delete_other[OF d assms(2)] by auto
qed

lemma trace_interfered [simp]: "trace (interfered e w) = trace w"
  by (simp add: interfered_def split: prod.splits)

lemma processed_name_not_master [simp]: "processed_name n \<noteq> MASTER_LOG_FILE_NAME"
  by (simp add: processed_name_def PROCESSED_FRAGMENTS_PREFIX_def MASTER_LOG_FILE_NAME_def)

lemma archive_name_not_master [simp]: "MASTER_LOG_FILE_NAME \<noteq> archive_name e"
  by (simp add: archive_name_def MASTER_LOG_FILE_NAME_def)

lemma listing_prefix: "n \<in> set (listing bs) \<Longrightarrow> \<exists>rest. n = FRAGMENTS_PREFIX @ rest"
  by (auto simp: listing_def startswith_def) (metis append_take_drop_id)

lemma consumed_listed: "n \<in> set (consumed e bs) \<Longrightarrow> n \<in> set (listing bs)"
  by (simp add: consumed_def)

lemma listed_not_master: "n \<in> set (listing bs) \<Longrightarrow> n \<noteq> MASTER_LOG_FILE_NAME"
  by (auto dest!: listing_prefix simp: FRAGMENTS_PREFIX_def MASTER_LOG_FILE_NAME_def)

lemma processed_name_prefix:
  "processed_name (FRAGMENTS_PREFIX @ rest) = PROCESSED_FRAGMENTS_PREFIX @ rest"
  by (simp add: processed_name_def)

text \<open>The write and what follows it, case by case.\<close>

lemma write_and_retire_cases:
  assumes "write_and_retire e old g news vs w = (r, w')"
  obtains (undecodable) err where "r = Inl err" "w' = w" "should_rotate old"
      "loads e (dumps (JArr old)) = Inl err"
  | (rejected) err where "r = Inl err" "w' = emit (Uploaded MASTER_LOG_FILE_NAME False) (interfered e w)"
      "err = (if write_fault e then StoreError else PreconditionFailed)"
  | (written) la logs tok k w1 where
      "rotation e old g news = Inr (la, logs, tok)"
      "\<not> write_fault e" "generation_match (objects (interfered e w)) MASTER_LOG_FILE_NAME tok"
      "w1 = archive_old_log e la
              (put MASTER_LOG_FILE_NAME (dumps_indent2 (JArr logs))
                 (emit (Uploaded MASTER_LOG_FILE_NAME True) (interfered e w)))"
      "retire_fragments e vs w1 = (k, w')"
      "r = Inr (complete_message k, 200)"
proof (cases "rotation e old g news")
  case (Inl err)
  then have "r = Inl err" "w' = w" "should_rotate old" "loads e (dumps (JArr old)) = Inl err"
    using assms by (auto simp: write_and_retire_def rotation_def split: if_splits sum.splits)
  then show ?thesis by (rule undecodable)
next
  case (Inr plan)
  obtain la logs tok where plan: "plan = (la, logs, tok)" by (cases plan)
  obtain u w0 where up: "upload_from_string (write_fault e) MASTER_LOG_FILE_NAME
      (dumps_indent2 (JArr logs)) (Some tok) (interfered e w) = (u, w0)"
    by (cases "upload_from_string (write_fault e) MASTER_LOG_FILE_NAME
      (dumps_indent2 (JArr logs)) (Some tok) (interfered e w)")
  show ?thesis
  proof (cases u)
    case (Inl err)
    then have "r = Inl err" "w' = w0"
      using assms Inr plan up by (auto simp: write_and_retire_def)
    with upload_rejected[OF up[unfolded Inl]] show ?thesis by (auto intro: rejected)
  next
    case (Inr x)
    obtain k w2 where rt: "retire_fragments e vs (archive_old_log e la w0) = (k, w2)"
      by (cases "retire_fragments e vs (archive_old_log e la w0)")
    have "r = Inr (complete_message k, 200)" "w' = w2"
      using assms \<open>rotation e old g news = Inr plan\<close> plan up Inr rt
      by (auto simp: write_and_retire_def)
    with upload_accepted[OF up[unfolded Inr]] rt \<open>rotation e old g news = Inr plan\<close> plan
    show ?thesis by (auto intro: written)
  qed
qed


text \<open>A run, case by case: where it ends, or that it reaches the write.\<close>

lemma run_cases:
  assumes "handle_consolidation e w = (r, w')"
  obtains
    (misconfigured) "\<not> bucket e \<or> \<not> storage_client e"
      "r = Inr (''Service misconfigured'', 204)" "w' = w"
  | (list_failed) rs where "bucket e" "storage_client e" "list_fault e" "r = Inl StoreError"
      "objects w' = objects w" "last_generation w' = last_generation w"
      "trace w' = trace w @ rs" "list_all is_read rs"
  | (no_fragments) rs where "bucket e" "storage_client e" "\<not> list_fault e"
      "listing (objects w) = []" "r = Inr (''No fragments to consolidate.'', 200)"
      "objects w' = objects w" "last_generation w' = last_generation w"
      "trace w' = trace w @ rs" "list_all is_read rs"
  | (read_failed) rs err where "bucket e" "storage_client e" "\<not> list_fault e"
      "listing (objects w) \<noteq> []" "master_read_error e (objects w) = Some err" "r = Inl err"
      "objects w' = objects w" "last_generation w' = last_generation w"
      "trace w' = trace w @ rs" "list_all is_read rs"
  | (no_entries) rs where "bucket e" "storage_client e" "\<not> list_fault e"
      "listing (objects w) \<noteq> []" "master_read_error e (objects w) = None"
      "decoded_entries e (objects w) = []"
      "r = Inr (''No valid entries found in fragments.'', 200)"
      "objects w' = objects w" "last_generation w' = last_generation w"
      "trace w' = trace w @ rs" "list_all is_read rs"
  | (sort_failed) rs err where "bucket e" "storage_client e" "\<not> list_fault e"
      "listing (objects w) \<noteq> []" "master_read_error e (objects w) = None"
      "decoded_entries e (objects w) \<noteq> []"
      "sort_entries (decoded_entries e (objects w)) = Inl err" "r = Inl err"
      "objects w' = objects w" "last_generation w' = last_generation w"
      "trace w' = trace w @ rs" "list_all is_read rs"
  | (reaches_write) rs w3 news where "bucket e" "storage_client e" "\<not> list_fault e"
      "listing (objects w) \<noteq> []" "master_read_error e (objects w) = None"
      "decoded_entries e (objects w) \<noteq> []"
      "sort_entries (decoded_entries e (objects w)) = Inr news"
      "objects w3 = objects w" "last_generation w3 = last_generation w"
      "trace w3 = trace w @ rs" "list_all is_read rs"
      "write_and_retire e (prior_entries e (objects w)) (prior_generation (objects w)) news
         (consumed e (objects w)) w3 = (r, w')"
proof (cases "bucket e \<and> storage_client e")
  case False
  then have "r = Inr (''Service misconfigured'', 204)" "w' = w"
    using assms by (auto simp: handle_consolidation_def)
  with False show ?thesis by (auto intro: misconfigured)
next
  case True
  then have b: "bucket e" "storage_client e" by auto
  from handle_consolidation_unfold[OF b, of w] obtain w3 rs where
    f: "objects w3 = objects w" "last_generation w3 = last_generation w"
       "trace w3 = trace w @ rs" "list_all is_read rs"
    and h: "handle_consolidation e w =
          (if list_fault e then (Inl StoreError, w3)
           else if listing (objects w) = [] then (Inr (''No fragments to consolidate.'', 200), w3)
           else if master_read_error e (objects w) \<noteq> None
             then (Inl (the (master_read_error e (objects w))), w3)
           else if decoded_entries e (objects w) = []
             then (Inr (''No valid entries found in fragments.'', 200), w3)
           else case sort_entries (decoded_entries e (objects w)) of
                  Inl err \<Rightarrow> (Inl err, w3)
                | Inr sorted_entries \<Rightarrow>
                    write_and_retire e (prior_entries e (objects w))
                      (prior_generation (objects w)) sorted_entries
                      (consumed e (objects w)) w3)"
    by blast
  show ?thesis
  proof (cases "list_fault e")
    case True
    with h assms have "r = Inl StoreError" "w' = w3" by auto
    with f b True show ?thesis by (auto intro: list_failed)
  next
    case lf: False
    show ?thesis
    proof (cases "listing (objects w) = []")
      case True
      with h assms lf have "r = Inr (''No fragments to consolidate.'', 200)" "w' = w3" by auto
      with f b lf True show ?thesis by (auto intro: no_fragments)
    next
      case ne: False
      show ?thesis
      proof (cases "master_read_error e (objects w)")
        case (Some err)
        with h assms lf ne have "r = Inl err" "w' = w3" by auto
        with f b lf ne Some show ?thesis by (auto intro: read_failed)
      next
        case rf: None
        show ?thesis
        proof (cases "decoded_entries e (objects w) = []")
          case True
          with h assms lf ne rf
          have "r = Inr (''No valid entries found in fragments.'', 200)" "w' = w3" by auto
          with f b lf ne rf True show ?thesis by (auto intro: no_entries)
        next
          case de: False
          show ?thesis
          proof (cases "sort_entries (decoded_entries e (objects w))")
            case (Inl err)
            with h assms lf ne rf de have "r = Inl err" "w' = w3" by auto
            with f b lf ne rf de Inl show ?thesis by (auto intro: sort_failed)
          next
            case (Inr news)
            with h assms lf ne rf de
            have "write_and_retire e (prior_entries e (objects w)) (prior_generation (objects w))
                    news (consumed e (objects w)) w3 = (r, w')" by auto
            with f b lf ne rf de Inr show ?thesis by (auto intro: reaches_write)
          qed
        qed
      qed
    qed
  qed
qed


subsection \<open>Traces\<close>

lemma decoded_entries_empty:
  "decoded_entries e bs = [] \<longleftrightarrow> (\<forall>n \<in> set (listing bs). fragment_entry e bs n = None)"
  by (auto simp: decoded_entries_def List.map_filter_def filter_empty_conv)

lemma reads_not_mutating:
  "list_all is_read rs \<Longrightarrow> Uploaded n ok \<notin> set rs \<and> Copied n d ok \<notin> set rs \<and> Deleted n ok \<notin> set rs"
  by (auto simp: list_all_iff)

lemma split_at_event:
  assumes "xs @ ys = pre @ z # post" and "z \<notin> set xs"
  shows "ys \<noteq> [] \<and> set xs \<subseteq> set pre"
proof -
  from assms(1) obtain us where
    "(xs = pre @ us \<and> us @ ys = z # post) \<or> (xs @ us = pre \<and> ys = us @ z # post)"
    by (auto simp: append_eq_append_conv2)
  then show ?thesis
  proof
    assume a: "xs = pre @ us \<and> us @ ys = z # post"
    then have "us = []" using assms(2) by (cases us) auto
    with a show ?thesis by auto
  next
    assume "xs @ us = pre \<and> ys = us @ z # post"
    then show ?thesis by auto
  qed
qed

text \<open>The trace of a run that wrote the master log.\<close>

lemma written_run_trace:
  assumes "write_and_retire e old g news vs w = (Inr (msg, code), w')"
  shows "\<exists>us cs ds k. trace w' = trace w @ Uploaded MASTER_LOG_FILE_NAME True # us @ cs @ ds
     \<and> (us = [] \<or> (\<exists>ok. us = [Uploaded (archive_name e) ok]))
     \<and> (\<forall>ev \<in> set cs. \<exists>n c. ev = Copied n (processed_name n) c \<and> n \<in> set vs)
     \<and> (\<forall>ev \<in> set ds. \<exists>n c. ev = Deleted n c \<and> n \<in> set vs)
     \<and> (ds \<noteq> [] \<longrightarrow> cs = map (\<lambda>n. Copied n (processed_name n) True) vs)
     \<and> ((\<exists>n d. Copied n d False \<in> set cs) \<longrightarrow> ds = [])
     \<and> (k = length vs \<longrightarrow> cs = map (\<lambda>n. Copied n (processed_name n) True) vs
                            \<and> ds = map (\<lambda>n. Deleted n True) vs)
     \<and> (k = length vs \<or> k = 0) \<and> msg = complete_message k \<and> code = 200"
  using assms
proof (cases rule: write_and_retire_cases)
  case (written la logs tok k w1)
  from archive_old_log_frame(1)[OF written(4)[symmetric]] obtain us where
    us: "trace w1 = trace w @ Uploaded MASTER_LOG_FILE_NAME True # us"
      "us = [] \<or> (\<exists>ok. us = [Uploaded (archive_name e) ok])" by auto
  from retire_fragments_trace[OF written(5)] obtain cs ds where
    r: "trace w' = trace w1 @ cs @ ds"
     "\<forall>ev \<in> set cs. \<exists>n c. ev = Copied n (processed_name n) c \<and> n \<in> set vs"
     "\<forall>ev \<in> set ds. \<exists>n c. ev = Deleted n c \<and> n \<in> set vs"
     "ds \<noteq> [] \<longrightarrow> cs = map (\<lambda>n. Copied n (processed_name n) True) vs"
     "(\<exists>n d. Copied n d False \<in> set cs) \<longrightarrow> ds = []"
     "k = length vs \<longrightarrow> cs = map (\<lambda>n. Copied n (processed_name n) True) vs
                            \<and> ds = map (\<lambda>n. Deleted n True) vs"
     "k = length vs \<or> k = 0" by blast
  show ?thesis
    apply (rule exI[of _ us], rule exI[of _ cs], rule exI[of _ ds], rule exI[of _ k])
    using us r written(6) by simp
qed auto


subsection \<open>The sort\<close>

lemma decorate_Inr:
  "decorate xs = Inr kxs \<Longrightarrow> map snd kxs = xs"
  by (induction xs arbitrary: kxs) (auto split: sum.splits)

lemma mset_insort_entry: "mset (insort_entry kx kys) = add_mset kx (mset kys)"
  by (induction kys) auto

lemma mset_foldr_insort_entry: "mset (foldr insort_entry kxs []) = mset kxs"
  by (induction kxs) (auto simp: mset_insort_entry)

lemma sort_entries_mset:
  assumes "sort_entries xs = Inr ys"
  shows "mset ys = mset xs"
proof -
  from assms obtain kxs where d: "decorate xs = Inr kxs"
    and ys: "ys = map snd (foldr insort_entry kxs [])"
    by (auto simp: sort_entries_def split: sum.splits if_splits)
  have "mset ys = image_mset snd (mset (foldr insort_entry kxs []))" using ys by simp
  also have "\<dots> = mset (map snd kxs)" by (simp add: mset_foldr_insort_entry)
  finally show ?thesis using decorate_Inr[OF d] by simp
qed

text \<open>Entries whose key is a string: the sort is the library's stable sort by that string.\<close>

lemma entry_timestamp_key:
  "entry_timestamp x \<noteq> None \<Longrightarrow> timestamp_key x = Inr (JStr (the (entry_timestamp x)))"
  by (auto simp: entry_timestamp_def split: sum.splits json.splits)

lemma decorate_strings:
  "list_all (\<lambda>x. entry_timestamp x \<noteq> None) xs \<Longrightarrow> decorate xs = Inr (map keyed xs)"
  by (induction xs) (auto simp: entry_timestamp_key keyed_def)

lemma pairwise_comparable_strings: "pairwise_comparable (map JStr ss)"
  by (induction ss) (auto simp: comparable_def list_all_iff)

lemma insort_entry_keyed:
  "insort_entry (keyed x) (map keyed ys) = map keyed (insort_key (\<lambda>x. the (entry_timestamp x)) x ys)"
  by (induction ys) (auto simp: keyed_def key_lt_def)

lemma foldr_insort_entry_keyed:
  "foldr insort_entry (map keyed xs) [] = map keyed (sort_key (\<lambda>x. the (entry_timestamp x)) xs)"
  by (induction xs) (simp_all add: insort_entry_keyed sort_key_def)

lemma sort_entries_strings:
  assumes "list_all (\<lambda>x. entry_timestamp x \<noteq> None) xs"
  shows "sort_entries xs = Inr (sort_key (\<lambda>x. the (entry_timestamp x)) xs)"
proof -
  have "map fst (map keyed xs) = map JStr (map (\<lambda>x. the (entry_timestamp x)) xs)"
    by (simp add: keyed_def comp_def)
  then have "pairwise_comparable (map fst (map keyed xs))"
    using pairwise_comparable_strings by metis
  moreover have "map snd (map keyed ys) = ys" for ys by (simp add: keyed_def comp_def)
  ultimately show ?thesis
    using decorate_strings[OF assms]
    by (simp add: sort_entries_def foldr_insort_entry_keyed del: map_map)
qed

lemma sort_entries_in_order:
  assumes "list_all (\<lambda>x. entry_timestamp x \<noteq> None) xs" and "sort_entries xs = Inr ys"
  shows "in_timestamp_order ys"
proof -
  have ys: "ys = sort_key (\<lambda>x. the (entry_timestamp x)) xs"
    using sort_entries_strings[OF assms(1)] assms(2) by simp
  have "set ys = set xs" by (simp add: ys)
  then have "list_all (\<lambda>x. entry_timestamp x \<noteq> None) ys"
    using assms(1) by (simp add: list_all_iff)
  moreover have "sorted (map (\<lambda>x. the (entry_timestamp x)) ys)" by (simp add: ys)
  ultimately show ?thesis by (simp add: in_timestamp_order_def)
qed

lemma in_timestamp_order_append:
  "in_timestamp_order (xs @ ys) \<longleftrightarrow>
     in_timestamp_order xs \<and> in_timestamp_order ys
     \<and> (\<forall>x \<in> set xs. \<forall>y \<in> set ys. the (entry_timestamp x) \<le> the (entry_timestamp y))"
  by (auto simp: in_timestamp_order_def sorted_append)


subsection \<open>A successful write\<close>

lemma written_master:
  assumes "write_and_retire e old g news vs w = (Inr mc, w')"
    and "MASTER_LOG_FILE_NAME \<notin> set vs"
  shows "\<exists>b. map_of (objects w') MASTER_LOG_FILE_NAME = Some b
    \<and> content b = dumps_indent2 (JArr (if should_rotate old then news else old @ news))"
  using assms(1)
proof (cases rule: write_and_retire_cases)
  case (written la logs tok k w1)
  have logs: "logs = (if should_rotate old then news else old @ news)"
    using written(1) by (auto simp: rotation_def split: if_splits sum.splits)
  let ?w0 = "put MASTER_LOG_FILE_NAME (dumps_indent2 (JArr logs))
                 (emit (Uploaded MASTER_LOG_FILE_NAME True) (interfered e w))"
  have "map_of (objects ?w0) MASTER_LOG_FILE_NAME
      = Some \<lparr>content = dumps_indent2 (JArr logs),
              generation = Suc (last_generation (interfered e w))\<rparr>"
    by (simp add: map_of_update_same)
  moreover have "map_of (objects w1) MASTER_LOG_FILE_NAME = map_of (objects ?w0) MASTER_LOG_FILE_NAME"
    using archive_old_log_frame(2)[OF written(4)[symmetric], of MASTER_LOG_FILE_NAME] by simp
  moreover have "map_of (objects w') MASTER_LOG_FILE_NAME = map_of (objects w1) MASTER_LOG_FILE_NAME"
    using retire_fragments_other[OF written(5) assms(2)] by simp
  ultimately show ?thesis using logs by simp
qed auto

lemma consumed_not_master: "MASTER_LOG_FILE_NAME \<notin> set (consumed e bs)"
  using consumed_listed listed_not_master by blast

lemma successful_write:
  assumes "handle_consolidation e w = (r, w')" and "trace w = []"
    and "Uploaded MASTER_LOG_FILE_NAME True \<in> set (trace w')"
  shows "\<exists>news b k. sort_entries (decoded_entries e (objects w)) = Inr news
    \<and> map_of (objects w') MASTER_LOG_FILE_NAME = Some b
    \<and> content b = dumps_indent2 (JArr (if should_rotate (prior_entries e (objects w)) then news
                                         else prior_entries e (objects w) @ news))
    \<and> r = Inr (complete_message k, 200)"
  using assms(1)
proof (cases rule: run_cases)
  case (reaches_write rs w3 news)
  from reaches_write(12) show ?thesis
  proof (cases rule: write_and_retire_cases)
    case undecodable
    then show ?thesis using reaches_write assms(2,3) reads_not_mutating by auto
  next
    case (rejected err)
    then show ?thesis using reaches_write assms(2,3) reads_not_mutating by auto
  next
    case (written la logs tok k w1)
    from written_master[OF reaches_write(12)[unfolded written(6)] consumed_not_master]
    show ?thesis using reaches_write(7) written(6) by auto
  qed
qed (use assms(2,3) reads_not_mutating in auto)

text \<open>The equations that evaluate a run on a concrete bucket.\<close>

lemma newline_indent_eval:
  "newline_indent 0 = [CHR 0x0A]"
  "newline_indent (Suc 0) = [CHR 0x0A, CHR '' '', CHR '' '']"
  "newline_indent (Suc (Suc 0)) = [CHR 0x0A, CHR '' '', CHR '' '', CHR '' '', CHR '' '']"
  by (simp_all add: newline_indent_def numeral_2_eq_2)

lemmas run_defs =
  handle_consolidation_def list_blobs_def read_master_def download_as_text_def
  write_and_retire_def rotation_def upload_from_string_def generation_match_def
  archive_old_log_def archive_name_def retire_fragments_def batch_delete_def MAX_BATCH_SIZE_def
  copy_blob_def processed_name_def
  complete_message_def interfered_def emit_def put_def startswith_def endswith_def
  FRAGMENTS_PREFIX_def PROCESSED_FRAGMENTS_PREFIX_def MASTER_LOG_FILE_NAME_def
  sort_entries_def timestamp_key_def comparable_def key_lt_def
  encode_str_def escape_char_def dumps_indent2_def newline_indent_eval
  str_nat.simps digit_char_def should_rotate_iff
  listing_def fragment_entry_def consumed_def decoded_entries_def prior_entries_def
  prior_generation_def master_read_error_def decode_table_def List.map_filter_def
  entry_timestamp_def in_timestamp_order_def


subsection \<open>Rotation\<close>

lemma concat_replicate_single: "concat (replicate n [c]) = replicate n c"
  by (induction n) simp_all

lemma utf8_length_replicate:
  "utf8_length (replicate n c) = n * (if (of_char c :: nat) < 128 then 1 else 2)"
  by (induction n) simp_all

lemma big_message_size: "utf8_length (concat (map escape_char big_message)) = 204800"
proof -
  have "escape_char CHR ''x'' = [CHR ''x'']" by (simp add: escape_char_def)
  then have "concat (map escape_char big_message) = big_message"
    by (simp add: big_message_def concat_replicate_single)
  then show ?thesis by (simp add: big_message_def utf8_length_replicate)
qed

lemma big_rotates: "should_rotate [big_entry]"
  by (simp add: should_rotate_iff big_entry_def encode_str_def big_message_size)

lemma long_message_size: "utf8_length (concat (map escape_char long_message)) = 204700"
proof -
  have "escape_char CHR ''x'' = [CHR ''x'']" by (simp add: escape_char_def)
  then have "concat (map escape_char long_message) = long_message"
    by (simp add: long_message_def concat_replicate_single)
  then show ?thesis by (simp add: long_message_def utf8_length_replicate)
qed

lemma deeply_nested_not_fragment [simp]: "deeply_nested \<noteq> ''{{''"
proof
  assume "deeply_nested = ''{{''"
  then have "length deeply_nested = length ''{{''" by (rule arg_cong)
  then show False by (simp add: deeply_nested_def)
qed

lemma rotation_write_needs_absent_master:
  assumes "handle_consolidation e w = (r, w')" and "trace w = []"
    and "Uploaded MASTER_LOG_FILE_NAME True \<in> set (trace w')"
    and "should_rotate (prior_entries e (objects w))"
  shows "map_of (fst (concurrent e (objects w, last_generation w))) MASTER_LOG_FILE_NAME = None"
  using assms(1)
proof (cases rule: run_cases)
  case (reaches_write rs w3 news)
  have i: "objects (interfered e w3) = fst (concurrent e (objects w, last_generation w))"
    using reaches_write(8,9) by (simp add: interfered_def split: prod.splits)
  from reaches_write(12) show ?thesis
  proof (cases rule: write_and_retire_cases)
    case undecodable
    then show ?thesis using reaches_write assms(2,3) reads_not_mutating by auto
  next
    case (rejected err)
    then show ?thesis using reaches_write assms(2,3) reads_not_mutating by auto
  next
    case (written la logs tok k w1)
    have "tok = 0" using written(1) assms(4)
      by (auto simp: rotation_def split: if_splits sum.splits)
    then show ?thesis using written(3) i
      by (auto simp: generation_match_def split: option.splits)
  qed
qed (use assms(2,3) reads_not_mutating in auto)


subsection \<open>A bucket with and without one fragment\<close>

lemma update_delete_commute:
  "k \<noteq> n \<Longrightarrow> AList.update k v (AList.delete n bs) = AList.delete n (AList.update k v bs)"
  by (induction bs) auto

lemma delete_delete_commute:
  "AList.delete k (AList.delete n bs) = AList.delete n (AList.delete k bs)"
  by (induction bs) auto

lemma without_emit: "without n w v \<Longrightarrow> without n (emit ev w) (emit ev' v)"
  by (simp add: without_def)

lemma without_put: "without n w v \<Longrightarrow> k \<noteq> n \<Longrightarrow> without n (put k t w) (put k t v)"
  by (simp add: without_def update_delete_commute)

lemma without_map_of: "without n w v \<Longrightarrow> k \<noteq> n \<Longrightarrow> map_of (objects v) k = map_of (objects w) k"
  by (simp add: without_def map_of_delete_other)

lemma upload_sim:
  assumes "without n w v" and "k \<noteq> n"
  shows "fst (upload_from_string f k t pre v) = fst (upload_from_string f k t pre w)
    \<and> without n (snd (upload_from_string f k t pre w)) (snd (upload_from_string f k t pre v))"
  using assms without_map_of[OF assms]
  by (auto simp: upload_from_string_def generation_match_def without_emit without_put
      split: option.splits)

lemma archive_sim:
  assumes "without n w v" and "archive_name e \<noteq> n"
  shows "without n (archive_old_log e la w) (archive_old_log e la v)"
  using assms upload_sim[OF assms, of "archive_fault e" _ None]
  by (auto simp: archive_old_log_def split: option.splits)

lemma copy_all_sim:
  assumes "without n w v" and "n \<notin> set ns" and "\<And>m. m \<in> set ns \<Longrightarrow> processed_name m \<noteq> n"
  shows "fst (copy_all e ns v) = fst (copy_all e ns w)
    \<and> without n (snd (copy_all e ns w)) (snd (copy_all e ns v))"
  using assms
proof (induction ns arbitrary: w v)
  case Nil
  then show ?case by simp
next
  case (Cons m ns)
  have m: "m \<noteq> n" "processed_name m \<noteq> n" using Cons.prems by auto
  have same: "map_of (objects v) m = map_of (objects w) m"
    using without_map_of[OF Cons.prems(1) m(1)] .
  show ?case
  proof (cases "copy_fault e m \<or> map_of (objects w) m = None")
    case True
    then show ?thesis using same Cons.prems(1)
      by (auto simp: copy_blob_def without_emit split: option.splits)
  next
    case False
    then obtain b where b: "map_of (objects w) m = Some b" by auto
    let ?w1 = "put (processed_name m) (content b) (emit (Copied m (processed_name m) True) w)"
    let ?v1 = "put (processed_name m) (content b) (emit (Copied m (processed_name m) True) v)"
    have r: "without n ?w1 ?v1" using Cons.prems(1) m(2) by (simp add: without_emit without_put)
    have "copy_all e (m # ns) w = copy_all e ns ?w1" "copy_all e (m # ns) v = copy_all e ns ?v1"
      using False b same by (auto simp: copy_blob_def)
    with Cons.IH[OF r] Cons.prems(2,3) show ?thesis by simp
  qed
qed

lemma finish_batch_sim:
  assumes "without n w v" and "n \<notin> set ns"
  shows "fst (finish_batch e ns v) = fst (finish_batch e ns w)
    \<and> without n (snd (finish_batch e ns w)) (snd (finish_batch e ns v))"
  using assms
proof (induction ns arbitrary: w v)
  case Nil
  then show ?case by simp
next
  case (Cons m ns)
  have m: "m \<noteq> n" using Cons.prems by auto
  have same: "map_of (objects v) m = map_of (objects w) m"
    using without_map_of[OF Cons.prems(1) m] .
  show ?case
  proof (cases "delete_fault e m \<or> map_of (objects w) m = None")
    case True
    have r: "without n (emit (Deleted m False) w) (emit (Deleted m False) v)"
      using Cons.prems(1) by (rule without_emit)
    from Cons.IH[OF r] Cons.prems(2) True same show ?thesis
      by (auto split: prod.splits)
  next
    case False
    let ?w1 = "(emit (Deleted m True) w)\<lparr>objects := AList.delete m (objects w)\<rparr>"
    let ?v1 = "(emit (Deleted m True) v)\<lparr>objects := AList.delete m (objects v)\<rparr>"
    have r: "without n ?w1 ?v1"
      using Cons.prems(1) by (simp add: without_def delete_delete_commute)
    have "finish_batch e (m # ns) w = finish_batch e ns ?w1"
      "finish_batch e (m # ns) v = finish_batch e ns ?v1"
      using False same by auto
    with Cons.IH[OF r] Cons.prems(2) show ?thesis by simp
  qed
qed

lemma retire_sim:
  assumes "without n w v" and "n \<notin> set ns" and "\<And>m. m \<in> set ns \<Longrightarrow> processed_name m \<noteq> n"
  shows "fst (retire_fragments e ns v) = fst (retire_fragments e ns w)
    \<and> without n (snd (retire_fragments e ns w)) (snd (retire_fragments e ns v))"
proof -
  note c = copy_all_sim[OF assms, of e]
  note d = finish_batch_sim[OF conjunct2[OF c] assms(2), of e]
  show ?thesis using c d
    by (auto simp: retire_fragments_def batch_delete_def split: prod.splits bool.splits)
qed

lemma interfered_sim:
  assumes "without n w v" and "oblivious e n"
  shows "without n (interfered e w) (interfered e v)"
  using assms by (auto simp: without_def oblivious_def interfered_def split: prod.splits)

lemma write_and_retire_sim:
  assumes "without n w v" and "oblivious e n" and "n \<notin> set vs"
    and "\<And>m. m \<in> set vs \<Longrightarrow> processed_name m \<noteq> n"
    and "n \<noteq> MASTER_LOG_FILE_NAME" and "archive_name e \<noteq> n"
  shows "fst (write_and_retire e old g news vs v) = fst (write_and_retire e old g news vs w)
    \<and> without n (snd (write_and_retire e old g news vs w)) (snd (write_and_retire e old g news vs v))"
proof (cases "rotation e old g news")
  case (Inl err)
  then show ?thesis using assms(1) by (simp add: write_and_retire_def)
next
  case (Inr plan)
  obtain la logs tok where plan: "plan = (la, logs, tok)" by (cases plan)
  let ?up = "\<lambda>x. upload_from_string (write_fault e) MASTER_LOG_FILE_NAME
      (dumps_indent2 (JArr logs)) (Some tok) (interfered e x)"
  have u: "fst (?up v) = fst (?up w)" "without n (snd (?up w)) (snd (?up v))"
    using upload_sim[OF interfered_sim[OF assms(1,2)], of MASTER_LOG_FILE_NAME] assms(5)
    by auto
  have a: "without n (archive_old_log e la (snd (?up w))) (archive_old_log e la (snd (?up v)))"
    using archive_sim[OF u(2) assms(6)] .
  note r = retire_sim[OF a assms(3,4), of e]
  show ?thesis
  proof (cases "fst (?up w)")
    case (Inl err)
    then show ?thesis using u Inr plan
      by (auto simp: write_and_retire_def split: prod.splits sum.splits)
  next
    case (Inr x)
    then show ?thesis using u r \<open>rotation e old g news = Inr plan\<close> plan
      by (auto simp: write_and_retire_def split: prod.splits sum.splits)
  qed
qed


lemma listing_delete: "listing (AList.delete n bs) = filter (\<lambda>m. m \<noteq> n) (listing bs)"
  by (induction bs) (auto simp: listing_def)

lemma fragment_entry_delete:
  assumes "fragment_entry e bs n = None"
  shows "fragment_entry e (AList.delete n bs) = fragment_entry e bs"
proof
  fix m
  show "fragment_entry e (AList.delete n bs) m = fragment_entry e bs m"
  proof (cases "m = n")
    case True
    then show ?thesis using assms by (simp add: fragment_entry_def map_of_delete_same)
  next
    case False
    then show ?thesis by (simp add: fragment_entry_def map_of_delete_other)
  qed
qed

lemma map_filter_skip:
  "f n = None \<Longrightarrow> List.map_filter f (filter (\<lambda>m. m \<noteq> n) xs) = List.map_filter f xs"
  by (induction xs) (auto simp: List.map_filter_simps split: option.splits)

lemma filter_skip:
  "f n = None \<Longrightarrow> filter (\<lambda>m. f m \<noteq> None) (filter (\<lambda>m. m \<noteq> n) xs) = filter (\<lambda>m. f m \<noteq> None) xs"
  by (induction xs) auto

lemma decoded_entries_delete:
  "fragment_entry e bs n = None \<Longrightarrow> decoded_entries e (AList.delete n bs) = decoded_entries e bs"
  by (simp add: decoded_entries_def listing_delete fragment_entry_delete map_filter_skip)

lemma consumed_delete:
  "fragment_entry e bs n = None \<Longrightarrow> consumed e (AList.delete n bs) = consumed e bs"
  by (simp only: consumed_def listing_delete fragment_entry_delete filter_skip)

lemma listed_names_apart:
  assumes "n \<in> set (listing bs)"
  shows "n \<noteq> MASTER_LOG_FILE_NAME" and "archive_name e \<noteq> n" and "processed_name m \<noteq> n"
  using listing_prefix[OF assms]
  by (auto simp: FRAGMENTS_PREFIX_def MASTER_LOG_FILE_NAME_def archive_name_def
      processed_name_def PROCESSED_FRAGMENTS_PREFIX_def)

lemma prior_delete:
  "n \<noteq> MASTER_LOG_FILE_NAME \<Longrightarrow> prior_entries e (AList.delete n bs) = prior_entries e bs"
  "n \<noteq> MASTER_LOG_FILE_NAME \<Longrightarrow> prior_generation (AList.delete n bs) = prior_generation bs"
  "n \<noteq> MASTER_LOG_FILE_NAME \<Longrightarrow> master_read_error e (AList.delete n bs) = master_read_error e bs"
  by (simp_all add: prior_entries_def prior_generation_def master_read_error_def map_of_delete_other)

lemma decoded_nonempty_listing:
  "decoded_entries e bs \<noteq> [] \<Longrightarrow> listing bs \<noteq> []"
  by (auto simp: decoded_entries_def List.map_filter_simps)

text \<open>
  A run on the bucket without an undecodable fragment, and the run on the bucket with
  it, when some fragment decodes.
\<close>

lemma run_sim:
  assumes "without n w v" and "oblivious e n"
    and "n \<in> set (listing (objects w))" and "fragment_entry e (objects w) n = None"
    and "decoded_entries e (objects w) \<noteq> []"
  shows "fst (handle_consolidation e v) = fst (handle_consolidation e w)
    \<and> without n (snd (handle_consolidation e w)) (snd (handle_consolidation e v))"
proof (cases "bucket e \<and> storage_client e")
  case False
  then show ?thesis using assms(1) by (auto simp: handle_consolidation_def)
next
  case True
  then have b: "bucket e" "storage_client e" by auto
  have ov: "objects v = AList.delete n (objects w)" "last_generation v = last_generation w"
    using assms(1) by (auto simp: without_def)
  note apart = listed_names_apart[OF assms(3)]
  have dv: "decoded_entries e (objects v) = decoded_entries e (objects w)"
    and cv: "consumed e (objects v) = consumed e (objects w)"
    and pv: "prior_entries e (objects v) = prior_entries e (objects w)"
      "prior_generation (objects v) = prior_generation (objects w)"
      "master_read_error e (objects v) = master_read_error e (objects w)"
    using assms(4) apart(1) by (simp_all add: ov decoded_entries_delete consumed_delete prior_delete)
  have lw: "listing (objects w) \<noteq> []" using assms(3) by auto
  have lv: "listing (objects v) \<noteq> []" using decoded_nonempty_listing assms(5) dv by metis
  have nc: "n \<notin> set (consumed e (objects w))" using assms(4) by (simp add: consumed_def)
  from handle_consolidation_unfold[OF b, of w] obtain w3 where
    w3: "objects w3 = objects w" "last_generation w3 = last_generation w"
    and hw0: "handle_consolidation e w =
          (if list_fault e then (Inl StoreError, w3)
           else if listing (objects w) = [] then (Inr (''No fragments to consolidate.'', 200), w3)
           else if master_read_error e (objects w) \<noteq> None
             then (Inl (the (master_read_error e (objects w))), w3)
           else if decoded_entries e (objects w) = []
             then (Inr (''No valid entries found in fragments.'', 200), w3)
           else case sort_entries (decoded_entries e (objects w)) of
                  Inl err \<Rightarrow> (Inl err, w3)
                | Inr sorted_entries \<Rightarrow>
                    write_and_retire e (prior_entries e (objects w))
                      (prior_generation (objects w)) sorted_entries
                      (consumed e (objects w)) w3)"
    by blast
  from handle_consolidation_unfold[OF b, of v] obtain v3 where
    v3: "objects v3 = objects v" "last_generation v3 = last_generation v"
    and hv0: "handle_consolidation e v =
          (if list_fault e then (Inl StoreError, v3)
           else if listing (objects v) = [] then (Inr (''No fragments to consolidate.'', 200), v3)
           else if master_read_error e (objects v) \<noteq> None
             then (Inl (the (master_read_error e (objects v))), v3)
           else if decoded_entries e (objects v) = []
             then (Inr (''No valid entries found in fragments.'', 200), v3)
           else case sort_entries (decoded_entries e (objects v)) of
                  Inl err \<Rightarrow> (Inl err, v3)
                | Inr sorted_entries \<Rightarrow>
                    write_and_retire e (prior_entries e (objects v))
                      (prior_generation (objects v)) sorted_entries
                      (consumed e (objects v)) v3)"
    by blast
  have hw: "handle_consolidation e w =
          (if list_fault e then (Inl StoreError, w3)
           else if master_read_error e (objects w) \<noteq> None
             then (Inl (the (master_read_error e (objects w))), w3)
           else case sort_entries (decoded_entries e (objects w)) of
                  Inl err \<Rightarrow> (Inl err, w3)
                | Inr sorted_entries \<Rightarrow>
                    write_and_retire e (prior_entries e (objects w))
                      (prior_generation (objects w)) sorted_entries
                      (consumed e (objects w)) w3)"
    using hw0 lw assms(5) by simp
  have hv: "handle_consolidation e v =
          (if list_fault e then (Inl StoreError, v3)
           else if master_read_error e (objects w) \<noteq> None
             then (Inl (the (master_read_error e (objects w))), v3)
           else case sort_entries (decoded_entries e (objects w)) of
                  Inl err \<Rightarrow> (Inl err, v3)
                | Inr sorted_entries \<Rightarrow>
                    write_and_retire e (prior_entries e (objects w))
                      (prior_generation (objects w)) sorted_entries
                      (consumed e (objects w)) v3)"
    using hv0 lv assms(5) by (simp add: dv cv pv cong: sum.case_cong)
  have r3: "without n w3 v3" using w3 v3 ov by (simp add: without_def)
  note ws = write_and_retire_sim[OF r3 assms(2) nc apart(3) apart(1) apart(2)]
  show ?thesis
  proof (cases "list_fault e \<or> master_read_error e (objects w) \<noteq> None")
    case True
    then show ?thesis using hw hv r3 by auto
  next
    case False
    show ?thesis
    proof (cases "sort_entries (decoded_entries e (objects w))")
      case (Inl err)
      then show ?thesis using hw hv r3 False by auto
    next
      case (Inr news)
      then show ?thesis using hw hv False ws by auto
    qed
  qed
qed


lemma retire_requests_consumed:
  assumes "handle_consolidation e w = (r, w')" and "trace w = []"
    and "Copied n d ok \<in> set (trace w') \<or> Deleted n ok \<in> set (trace w')"
  shows "n \<in> set (consumed e (objects w))"
  using assms(1)
proof (cases rule: run_cases)
  case (reaches_write rs w3 news)
  show ?thesis
  proof (cases r)
    case (Inl err)
    from reaches_write(12) have "trace w' = rs \<or> trace w' = rs @ [Uploaded MASTER_LOG_FILE_NAME False]"
      using Inl reaches_write(10) assms(2) by (cases rule: write_and_retire_cases) auto
    then show ?thesis using assms(3) reads_not_mutating[OF reaches_write(11)] by auto
  next
    case (Inr mc)
    obtain msg code where mc: "mc = (msg, code)" by (cases mc)
    from written_run_trace[OF reaches_write(12)[unfolded Inr mc]] obtain us cs ds where
      t: "trace w' = trace w3 @ Uploaded MASTER_LOG_FILE_NAME True # us @ cs @ ds"
      and us: "us = [] \<or> (\<exists>ok. us = [Uploaded (archive_name e) ok])"
      and cs: "\<forall>ev \<in> set cs. \<exists>n c. ev = Copied n (processed_name n) c \<and> n \<in> set (consumed e (objects w))"
      and ds: "\<forall>ev \<in> set ds. \<exists>n c. ev = Deleted n c \<and> n \<in> set (consumed e (objects w))"
      by blast
    from assms(3) show ?thesis
    proof
      assume "Copied n d ok \<in> set (trace w')"
      then have "Copied n d ok \<in> set cs"
        using t us ds reads_not_mutating[OF reaches_write(11)] reaches_write(10) assms(2) by auto
      with cs show ?thesis by auto
    next
      assume "Deleted n ok \<in> set (trace w')"
      then have "Deleted n ok \<in> set ds"
        using t us cs reads_not_mutating[OF reaches_write(11)] reaches_write(10) assms(2) by auto
      with ds show ?thesis by auto
    qed
  qed
qed (use assms(2,3) reads_not_mutating in auto)

subsection \<open>Fragments that do not decode\<close>

text \<open>
  A listed fragment whose download or \<^verbatim>\<open>json.loads\<close> raises does not stop the loop over
  the fragments: the loop returns the entries of exactly the fragments that decode, in
  listing order, and their names as the retirement set. The undecodable fragment is in
  neither: the run never copies or deletes it. When some fragment decodes, the run on
  this bucket returns what the run on the bucket without the undecodable fragment
  returns (or raises what it raises), and leaves the same bucket plus that fragment,
  provided no other writer treats the two buckets differently.
\<close>

lemma undecodable_fragment_skipped:
  assumes "n \<in> set (listing (objects w))" and "fragment_entry e (objects w) n = None"
  shows "fst (process_fragments e (listing (objects w)) [] [] w)
      = (decoded_entries e (objects w), consumed e (objects w))
    \<and> n \<notin> set (consumed e (objects w))
    \<and> (\<forall>m \<in> set (listing (objects w)). \<forall>x. fragment_entry e (objects w) m = Some x \<longrightarrow>
          m \<in> set (consumed e (objects w)) \<and> x \<in> set (decoded_entries e (objects w)))
    \<and> (\<forall>r w'. handle_consolidation e w = (r, w') \<and> trace w = [] \<longrightarrow>
          (\<forall>d ok. Copied n d ok \<notin> set (trace w') \<and> Deleted n ok \<notin> set (trace w')))
    \<and> (\<forall>v. without n w v \<and> oblivious e n \<and> decoded_entries e (objects w) \<noteq> [] \<longrightarrow>
          fst (handle_consolidation e v) = fst (handle_consolidation e w)
          \<and> without n (snd (handle_consolidation e w)) (snd (handle_consolidation e v)))"
proof -
  have a: "fst (process_fragments e (listing (objects w)) [] [] w)
      = (decoded_entries e (objects w), consumed e (objects w))"
    by (simp add: process_fragments_result decoded_entries_def consumed_def)
  have b: "n \<notin> set (consumed e (objects w))" using assms(2) by (simp add: consumed_def)
  have c: "\<forall>m \<in> set (listing (objects w)). \<forall>x. fragment_entry e (objects w) m = Some x \<longrightarrow>
          m \<in> set (consumed e (objects w)) \<and> x \<in> set (decoded_entries e (objects w))"
    by (force simp: consumed_def decoded_entries_def List.map_filter_def)
  have d: "\<forall>r w'. handle_consolidation e w = (r, w') \<and> trace w = [] \<longrightarrow>
          (\<forall>d ok. Copied n d ok \<notin> set (trace w') \<and> Deleted n ok \<notin> set (trace w'))"
    using retire_requests_consumed b by blast
  have s: "\<forall>v. without n w v \<and> oblivious e n \<and> decoded_entries e (objects w) \<noteq> [] \<longrightarrow>
          fst (handle_consolidation e v) = fst (handle_consolidation e w)
          \<and> without n (snd (handle_consolidation e w)) (snd (handle_consolidation e v))"
    using run_sim[OF _ _ assms] by blast
  from a b c d s show ?thesis by blast
qed

lemma mixed_fragments_run:
  "listing (objects mixed_fragments)
     = [''fragments/2024-01-01T00-00-01Z_m1.json'', ''fragments/2024-01-01T00-00-02Z_m3.json'',
        ''fragments/2024-01-01T00-00-00Z_m2.json'']
   \<and> fragment_entry (plain_env table_ab) (objects mixed_fragments)
        ''fragments/2024-01-01T00-00-02Z_m3.json'' = None
   \<and> consumed (plain_env table_ab) (objects mixed_fragments)
     = [''fragments/2024-01-01T00-00-01Z_m1.json'', ''fragments/2024-01-01T00-00-00Z_m2.json'']
   \<and> decoded_entries (plain_env table_ab) (objects mixed_fragments) = [entry_a, entry_b]
   \<and> fst (handle_consolidation (plain_env table_ab) mixed_fragments)
     = Inr (''Consolidation complete. Processed 2 fragments.'', 200)
   \<and> map fst (objects (snd (handle_consolidation (plain_env table_ab) mixed_fragments)))
     = [''fragments/2024-01-01T00-00-02Z_m3.json'', ''master_log.json'',
        ''processed/2024-01-01T00-00-01Z_m1.json'', ''processed/2024-01-01T00-00-00Z_m2.json'']
   \<and> map_of (objects (snd (handle_consolidation (plain_env table_ab) mixed_fragments)))
        ''master_log.json''
     = Some \<lparr>content = dumps_indent2 (JArr [entry_b, entry_a]), generation = 4\<rparr>
   \<and> fst (handle_consolidation (plain_env table_ab)
          (mixed_fragments\<lparr>objects :=
             AList.delete ''fragments/2024-01-01T00-00-02Z_m3.json'' (objects mixed_fragments)\<rparr>))
     = Inr (''Consolidation complete. Processed 2 fragments.'', 200)"
proof -
  let ?e = "plain_env table_ab"
  let ?n = "''fragments/2024-01-01T00-00-02Z_m3.json''"
  let ?v = "mixed_fragments\<lparr>objects := AList.delete ?n (objects mixed_fragments)\<rparr>"
  have l: "?n \<in> set (listing (objects mixed_fragments))"
    by (simp add: run_defs mixed_fragments_def)
  have f: "fragment_entry ?e (objects mixed_fragments) ?n = None"
    by (simp add: run_defs mixed_fragments_def plain_env_def table_ab_def entry_a_def entry_b_def)
  have wo: "without ?n mixed_fragments ?v" by (simp add: without_def)
  have ob: "oblivious ?e ?n" by (simp add: oblivious_def plain_env_def)
  have de: "decoded_entries ?e (objects mixed_fragments) = [entry_a, entry_b]"
    by (simp add: run_defs mixed_fragments_def plain_env_def table_ab_def entry_a_def entry_b_def)
  have same: "fst (handle_consolidation ?e ?v) = fst (handle_consolidation ?e mixed_fragments)"
    using undecodable_fragment_skipped [OF l f] wo ob de by simp
  have "fst (process_fragments ?e (listing (objects mixed_fragments)) [] [] mixed_fragments)
      = (decoded_entries ?e (objects mixed_fragments), consumed ?e (objects mixed_fragments))"
    using undecodable_fragment_skipped [OF l f] by blast
  moreover have "listing (objects mixed_fragments)
     = [''fragments/2024-01-01T00-00-01Z_m1.json'', ?n, ''fragments/2024-01-01T00-00-00Z_m2.json'']"
    by (simp add: run_defs mixed_fragments_def)
  moreover have "consumed ?e (objects mixed_fragments)
     = [''fragments/2024-01-01T00-00-01Z_m1.json'', ''fragments/2024-01-01T00-00-00Z_m2.json'']"
    "decoded_entries ?e (objects mixed_fragments) = [entry_a, entry_b]"
    by (simp_all add: run_defs mixed_fragments_def plain_env_def table_ab_def entry_a_def entry_b_def)
  moreover have "fst (handle_consolidation ?e mixed_fragments)
     = Inr (''Consolidation complete. Processed 2 fragments.'', 200)
   \<and> map fst (objects (snd (handle_consolidation ?e mixed_fragments)))
     = [?n, ''master_log.json'',
        ''processed/2024-01-01T00-00-01Z_m1.json'', ''processed/2024-01-01T00-00-00Z_m2.json'']
   \<and> map_of (objects (snd (handle_consolidation ?e mixed_fragments))) ''master_log.json''
     = Some \<lparr>content = dumps_indent2 (JArr [entry_b, entry_a]), generation = 4\<rparr>"
    by (simp add: run_defs mixed_fragments_def plain_env_def table_ab_def entry_a_def entry_b_def)
  ultimately show ?thesis using f same by simp
qed

section \<open>Properties of the consolidation pass\<close>

lemma gcs_init_uninitialised:
  "(\<not> fst (gcs_init MASTER_LOG_BUCKET client_raises bucket_raises)
     \<or> \<not> snd (gcs_init MASTER_LOG_BUCKET client_raises bucket_raises))
   \<longleftrightarrow> (MASTER_LOG_BUCKET = None \<or> MASTER_LOG_BUCKET = Some [] \<or> client_raises \<or> bucket_raises)"
  by (auto simp: gcs_init_def split: option.splits)

text \<open>
  C9: whenever the storage client or the bucket is not initialised, the invocation
  returns the message ``Service misconfigured'' with status 204 (a success status, so
  the trigger does not retry) instead of raising; it makes no request to the store (the
  trace is as it was) and leaves every object as it was.
\<close>

theorem misconfigured_returns_204_untouched:
  assumes "\<not> storage_client e \<or> \<not> bucket e"
  shows "handle_consolidation e w = (Inr (''Service misconfigured'', 204), w)"
  using assms by (auto simp: handle_consolidation_def)

theorem misconfigured_returns_204_untouched_witness:
  "\<not> bucket ((plain_env [])\<lparr>bucket := False\<rparr>)
   \<and> handle_consolidation ((plain_env [])\<lparr>bucket := False\<rparr>) two_fragments
       = (Inr (''Service misconfigured'', 204), two_fragments)"
  using misconfigured_returns_204_untouched [of "(plain_env [])\<lparr>bucket := False\<rparr>" two_fragments]
  by (simp add: plain_env_def)



text \<open>
  C8, as stated, promises the ``nothing to do'' outcome whenever no fragment decodes.
  The run reads the master log before it looks at the fragments, and an error of that
  read other than ``not found'' or a JSON parse error is raised again on purpose. With
  one fragment that is not JSON, a master log so deeply nested that the decoder raises
  \<^verbatim>\<open>RecursionError\<close> makes the run raise it; so does a master log whose download
  fails. Neither run returns the ``nothing to do'' outcome.
\<close>

theorem unreadable_master_is_fatal:
  "listing (objects nested_master) = [''fragments/2024-01-01T00-00-02Z_m3.json'']
   \<and> fragment_entry recursion_env (objects nested_master)
        ''fragments/2024-01-01T00-00-02Z_m3.json'' = None
   \<and> handle_consolidation recursion_env nested_master =
        (Inl RecursionError,
         nested_master\<lparr>trace :=
           [Listed ''fragments/'', Downloaded ''master_log.json'' True]\<rparr>)
   \<and> listing (objects broken_fragment) = [''fragments/2024-01-01T00-00-02Z_m3.json'']
   \<and> fragment_entry master_unreadable (objects broken_fragment)
        ''fragments/2024-01-01T00-00-02Z_m3.json'' = None
   \<and> handle_consolidation master_unreadable broken_fragment =
        (Inl StoreError,
         broken_fragment\<lparr>trace :=
           [Listed ''fragments/'', Downloaded ''master_log.json'' False]\<rparr>)"
  by (simp add: run_defs nested_master_def recursion_env_def master_unreadable_def
      broken_fragment_def plain_env_def)

text \<open>
  C8, amended: when no listed fragment is downloaded and parsed (in particular when none
  is listed), the run writes nothing, whatever the size of the prior master log: the
  objects are as they were and the run made only listing and download requests, so the
  master log was not written, no archive object was created and no fragment was copied
  or deleted. What the run returns is then fixed by how far it gets: the
  misconfiguration answer; the error of a failed listing; ``No fragments to
  consolidate.'' with status 200 when nothing is listed; the error that reading the
  master log raises out of the run, if it does; and otherwise ``No valid entries found
  in fragments.'' with status 200.
\<close>

theorem no_new_entries_nothing_written:
  assumes "handle_consolidation e w = (r, w')"
    and "\<forall>n \<in> set (listing (objects w)). fragment_entry e (objects w) n = None"
  shows "objects w' = objects w
    \<and> (\<exists>rs. trace w' = trace w @ rs \<and> list_all is_read rs)
    \<and> r = (if \<not> bucket e \<or> \<not> storage_client e then Inr (''Service misconfigured'', 204)
           else if list_fault e then Inl StoreError
           else if listing (objects w) = [] then Inr (''No fragments to consolidate.'', 200)
           else case master_read_error e (objects w) of
                  Some err \<Rightarrow> Inl err
                | None \<Rightarrow> Inr (''No valid entries found in fragments.'', 200))"
  using assms(1)
proof (cases rule: run_cases)
  case misconfigured
  then show ?thesis by auto
next
  case (sort_failed rs err)
  then show ?thesis using assms(2) by (simp add: decoded_entries_empty)
next
  case (reaches_write rs w3 news)
  then show ?thesis using assms(2) by (simp add: decoded_entries_empty)
qed auto

theorem no_new_entries_nothing_written_witness:
  "listing (objects broken_fragment) = [''fragments/2024-01-01T00-00-02Z_m3.json'']
   \<and> fragment_entry (plain_env []) (objects broken_fragment)
         ''fragments/2024-01-01T00-00-02Z_m3.json'' = None
   \<and> master_read_error (plain_env []) (objects broken_fragment) = None
   \<and> handle_consolidation (plain_env []) broken_fragment =
        (Inr (''No valid entries found in fragments.'', 200),
         broken_fragment\<lparr>trace :=
           [Listed ''fragments/'', Downloaded ''master_log.json'' True,
            Downloaded ''fragments/2024-01-01T00-00-02Z_m3.json'' True]\<rparr>)"
proof -
  obtain r w' where run: "handle_consolidation (plain_env []) broken_fragment = (r, w')"
    by (cases "handle_consolidation (plain_env []) broken_fragment")
  have none: "\<forall>n \<in> set (listing (objects broken_fragment)).
      fragment_entry (plain_env []) (objects broken_fragment) n = None"
    by (simp add: run_defs broken_fragment_def plain_env_def)
  show ?thesis
    using no_new_entries_nothing_written [OF run none]
    by (simp add: run_defs broken_fragment_def plain_env_def)
qed

text \<open>
  C1: in every run that attempts the write of the master log after another writer has
  changed that object (the live object's generation differs from the one this run read,
  0 when it read none), the write is rejected and the run ends with the exception
  (\<^verbatim>\<open>PreconditionFailed\<close>, unless the store failed otherwise first). The bucket is
  left as the other writer left it, and the run's requests are its reads followed by the
  one failed upload: nothing was applied to the master log, nothing archived, no
  fragment copied or deleted.
\<close>

theorem stale_generation_write_is_fatal:
  assumes "handle_consolidation e w = (r, w')" and "trace w = []"
    and "Uploaded MASTER_LOG_FILE_NAME ok \<in> set (trace w')"
    and "concurrent e (objects w, last_generation w) = (bs, g)"
    and "map_of bs MASTER_LOG_FILE_NAME = Some b"
    and "generation b \<noteq> prior_generation (objects w)"
  shows "r = Inl (if write_fault e then StoreError else PreconditionFailed)
    \<and> objects w' = bs
    \<and> (\<exists>rs. trace w' = rs @ [Uploaded MASTER_LOG_FILE_NAME False] \<and> list_all is_read rs)"
  using assms(1)
proof (cases rule: run_cases)
  case (reaches_write rs w3 news)
  have i: "objects (interfered e w3) = bs"
    using reaches_write(8,9) assms(4) by (simp add: interfered_def)
  from reaches_write(12) show ?thesis
  proof (cases rule: write_and_retire_cases)
    case undecodable
    then show ?thesis using reaches_write assms(2,3) reads_not_mutating by auto
  next
    case (rejected err)
    then show ?thesis using reaches_write assms(2) i by auto
  next
    case (written la logs tok k w1)
    have "tok = 0 \<or> tok = prior_generation (objects w)"
      using written(1) by (auto simp: rotation_def split: if_splits sum.splits)
    then have "\<not> generation_match bs MASTER_LOG_FILE_NAME tok"
      using assms(5,6) by (auto simp: generation_match_def)
    then show ?thesis using written(3) i by simp
  qed
qed (use assms(2,3) reads_not_mutating in auto)

theorem stale_generation_write_is_fatal_witness:
  "trace two_fragments = []
   \<and> prior_generation (objects two_fragments) = 0
   \<and> map_of (fst (other_writer (objects two_fragments, last_generation two_fragments)))
        MASTER_LOG_FILE_NAME = Some \<lparr>content = ''[]'', generation = 3\<rparr>
   \<and> fst (handle_consolidation ((plain_env table_ab)\<lparr>concurrent := other_writer\<rparr>) two_fragments)
        = Inl PreconditionFailed
   \<and> trace (snd (handle_consolidation ((plain_env table_ab)\<lparr>concurrent := other_writer\<rparr>) two_fragments))
        = [Listed ''fragments/'', Downloaded ''master_log.json'' False,
           Downloaded ''fragments/2024-01-01T00-00-01Z_m1.json'' True,
           Downloaded ''fragments/2024-01-01T00-00-00Z_m2.json'' True,
           Uploaded ''master_log.json'' False]"
proof -
  let ?e = "(plain_env table_ab)\<lparr>concurrent := other_writer\<rparr>"
  let ?bs = "fst (other_writer (objects two_fragments, last_generation two_fragments))"
  obtain r w' where run: "handle_consolidation ?e two_fragments = (r, w')"
    by (cases "handle_consolidation ?e two_fragments")
  have t: "trace two_fragments = []" by (simp add: two_fragments_def)
  have ev0: "trace (snd (handle_consolidation ?e two_fragments)) =
          [Listed ''fragments/'', Downloaded ''master_log.json'' False,
           Downloaded ''fragments/2024-01-01T00-00-01Z_m1.json'' True,
           Downloaded ''fragments/2024-01-01T00-00-00Z_m2.json'' True,
           Uploaded ''master_log.json'' False]"
    by (simp add: run_defs two_fragments_def plain_env_def table_ab_def entry_a_def entry_b_def
        other_writer_def)
  then have ev: "trace w' = [Listed ''fragments/'', Downloaded ''master_log.json'' False,
           Downloaded ''fragments/2024-01-01T00-00-01Z_m1.json'' True,
           Downloaded ''fragments/2024-01-01T00-00-00Z_m2.json'' True,
           Uploaded ''master_log.json'' False]"
    using run by simp
  have att: "Uploaded MASTER_LOG_FILE_NAME False \<in> set (trace w')"
    by (simp add: ev MASTER_LOG_FILE_NAME_def)
  have conc: "concurrent ?e (objects two_fragments, last_generation two_fragments) = (?bs, 3)"
    by (simp add: plain_env_def other_writer_def two_fragments_def)
  have live: "map_of ?bs MASTER_LOG_FILE_NAME = Some \<lparr>content = ''[]'', generation = 3\<rparr>"
    by (simp add: other_writer_def two_fragments_def MASTER_LOG_FILE_NAME_def)
  have stale: "generation \<lparr>content = ''[]'', generation = 3\<rparr> \<noteq> prior_generation (objects two_fragments)"
    by (simp add: prior_generation_def two_fragments_def MASTER_LOG_FILE_NAME_def)
  have pg: "prior_generation (objects two_fragments) = 0"
    by (simp add: prior_generation_def two_fragments_def MASTER_LOG_FILE_NAME_def)
  have "r = Inl PreconditionFailed"
    using stale_generation_write_is_fatal [OF run t att conc live stale]
    by (simp add: plain_env_def)
  then have "fst (handle_consolidation ?e two_fragments) = Inl PreconditionFailed"
    using run by simp
  with t pg live ev0 show ?thesis by simp
qed

text \<open>
  C7: in every run, whenever a delete request appears in the trace, a successful copy of
  every consumed fragment to its processed name comes before it; when any copy failed,
  the run makes no delete request at all; when a copy or a deletion failed the run still
  returns its message with status 200 (zero fragments processed). Copies go from a
  consumed fragment to the name with the prefix \<^verbatim>\<open>fragments/\<close> replaced by
  \<^verbatim>\<open>processed/\<close> and the rest kept, and only consumed fragments are deleted.
\<close>

theorem no_delete_before_all_copies:
  assumes "handle_consolidation e w = (r, w')" and "trace w = []"
  shows "(\<forall>pre n ok post. trace w' = pre @ Deleted n ok # post \<longrightarrow>
            (\<forall>v \<in> set (consumed e (objects w)). Copied v (processed_name v) True \<in> set pre))
    \<and> ((\<exists>n d. Copied n d False \<in> set (trace w')) \<longrightarrow> (\<forall>n ok. Deleted n ok \<notin> set (trace w')))
    \<and> ((\<exists>n d. Copied n d False \<in> set (trace w')) \<or> (\<exists>n. Deleted n False \<in> set (trace w'))
         \<longrightarrow> r = Inr (complete_message 0, 200))
    \<and> (\<forall>n d ok. Copied n d ok \<in> set (trace w') \<longrightarrow>
           n \<in> set (consumed e (objects w)) \<and>
           (\<exists>rest. n = FRAGMENTS_PREFIX @ rest \<and> d = PROCESSED_FRAGMENTS_PREFIX @ rest))
    \<and> (\<forall>n ok. Deleted n ok \<in> set (trace w') \<longrightarrow> n \<in> set (consumed e (objects w)))"
proof -
  have quiet: ?thesis if "trace w' = rs @ us" "list_all is_read rs"
      "us = [] \<or> us = [Uploaded MASTER_LOG_FILE_NAME False]" for rs us
  proof -
    have "\<forall>ev \<in> set (trace w'). (\<forall>n ok. ev \<noteq> Deleted n ok) \<and> (\<forall>n d ok. ev \<noteq> Copied n d ok)"
      using that by (auto simp: list_all_iff)
    then have "\<And>n ok. Deleted n ok \<notin> set (trace w')" "\<And>n d ok. Copied n d ok \<notin> set (trace w')"
      by blast+
    moreover have "\<forall>pre n ok post. trace w' = pre @ Deleted n ok # post \<longrightarrow>
            (\<forall>v \<in> set (consumed e (objects w)). Copied v (processed_name v) True \<in> set pre)"
    proof (intro allI impI)
      fix pre n ok post assume "trace w' = pre @ Deleted n ok # post"
      then have "Deleted n ok \<in> set (trace w')" by simp
      with \<open>\<And>n ok. Deleted n ok \<notin> set (trace w')\<close>
      show "\<forall>v \<in> set (consumed e (objects w)). Copied v (processed_name v) True \<in> set pre"
        by blast
    qed
    ultimately show ?thesis by blast
  qed
  from assms(1) show ?thesis
  proof (cases rule: run_cases)
    case misconfigured
    then show ?thesis using quiet[of "[]" "[]"] assms(2) by simp
  next
    case (list_failed rs)
    then show ?thesis using quiet[of rs "[]"] assms(2) by simp
  next
    case (no_fragments rs)
    then show ?thesis using quiet[of rs "[]"] assms(2) by simp
  next
    case (read_failed rs)
    then show ?thesis using quiet[of rs "[]"] assms(2) by simp
  next
    case (no_entries rs)
    then show ?thesis using quiet[of rs "[]"] assms(2) by simp
  next
    case (sort_failed rs err)
    then show ?thesis using quiet[of rs "[]"] assms(2) by simp
  next
    case (reaches_write rs w3 news)
    let ?vs = "consumed e (objects w)"
    show ?thesis
    proof (cases r)
      case (Inl err)
      from reaches_write(12) have "trace w' = rs \<or> trace w' = rs @ [Uploaded MASTER_LOG_FILE_NAME False]"
        using Inl reaches_write(10) assms(2) by (cases rule: write_and_retire_cases) auto
      then show ?thesis
      proof
        assume "trace w' = rs"
        then show ?thesis using quiet[of rs "[]"] reaches_write(11) by simp
      next
        assume "trace w' = rs @ [Uploaded MASTER_LOG_FILE_NAME False]"
        then show ?thesis
          using quiet[of rs "[Uploaded MASTER_LOG_FILE_NAME False]"] reaches_write(11) by simp
      qed
    next
      case (Inr mc)
      obtain msg code where mc: "mc = (msg, code)" by (cases mc)
      from written_run_trace[OF reaches_write(12)[unfolded Inr mc]] obtain us cs ds k where
        t: "trace w' = trace w3 @ Uploaded MASTER_LOG_FILE_NAME True # us @ cs @ ds"
        and us: "us = [] \<or> (\<exists>ok. us = [Uploaded (archive_name e) ok])"
        and cs: "\<forall>ev \<in> set cs. \<exists>n c. ev = Copied n (processed_name n) c \<and> n \<in> set ?vs"
        and ds: "\<forall>ev \<in> set ds. \<exists>n c. ev = Deleted n c \<and> n \<in> set ?vs"
        and all: "ds \<noteq> [] \<longrightarrow> cs = map (\<lambda>n. Copied n (processed_name n) True) ?vs"
        and failed: "(\<exists>n d. Copied n d False \<in> set cs) \<longrightarrow> ds = []"
        and alldone: "k = length ?vs \<longrightarrow> cs = map (\<lambda>n. Copied n (processed_name n) True) ?vs
                            \<and> ds = map (\<lambda>n. Deleted n True) ?vs"
        and k: "k = length ?vs \<or> k = 0" and msg: "msg = complete_message k" "code = 200"
        by blast
      let ?T0 = "rs @ Uploaded MASTER_LOG_FILE_NAME True # us"
      have tr: "trace w' = (?T0 @ cs) @ ds" using t reaches_write(10) assms(2) by simp
      have T0: "\<forall>ev \<in> set ?T0. (\<forall>n ok. ev \<noteq> Deleted n ok) \<and> (\<forall>n d ok. ev \<noteq> Copied n d ok)"
        using reaches_write(11) us by (auto simp: list_all_iff)
      have nodel: "Deleted n ok \<notin> set (?T0 @ cs)" for n ok using T0 cs by auto
      have c1: "\<forall>pre n ok post. trace w' = pre @ Deleted n ok # post \<longrightarrow>
            (\<forall>v \<in> set ?vs. Copied v (processed_name v) True \<in> set pre)"
      proof (intro allI impI ballI)
        fix pre n ok post v
        assume sp: "trace w' = pre @ Deleted n ok # post" and v: "v \<in> set ?vs"
        from split_at_event[OF sp[unfolded tr] nodel]
        have "ds \<noteq> []" "set (?T0 @ cs) \<subseteq> set pre" by auto
        moreover from this all v have "Copied v (processed_name v) True \<in> set cs" by auto
        ultimately show "Copied v (processed_name v) True \<in> set pre" by auto
      qed
      have cin: "Copied n d ok \<in> set cs" if m: "Copied n d ok \<in> set (trace w')" for n d ok
      proof -
        from m tr have "Copied n d ok \<in> set ?T0 \<or> Copied n d ok \<in> set cs \<or> Copied n d ok \<in> set ds"
          by auto
        moreover have "Copied n d ok \<notin> set ?T0" using T0 by blast
        moreover have "Copied n d ok \<notin> set ds" using ds by blast
        ultimately show ?thesis by blast
      qed
      have din: "Deleted n ok \<in> set ds" if m: "Deleted n ok \<in> set (trace w')" for n ok
      proof -
        from m tr have "Deleted n ok \<in> set ?T0 \<or> Deleted n ok \<in> set cs \<or> Deleted n ok \<in> set ds"
          by auto
        moreover have "Deleted n ok \<notin> set ?T0" using T0 by blast
        moreover have "Deleted n ok \<notin> set cs" using cs by blast
        ultimately show ?thesis by blast
      qed
      have c2: "(\<exists>n d. Copied n d False \<in> set (trace w')) \<longrightarrow> (\<forall>n ok. Deleted n ok \<notin> set (trace w'))"
      proof (intro impI allI notI)
        fix n ok assume "\<exists>n d. Copied n d False \<in> set (trace w')" and d: "Deleted n ok \<in> set (trace w')"
        then have "\<exists>n d. Copied n d False \<in> set cs" using cin by blast
        with failed have "ds = []" by blast
        with din[OF d] show False by simp
      qed
      have k0: "k = 0" if "(\<exists>n d. Copied n d False \<in> set (trace w')) \<or> (\<exists>n. Deleted n False \<in> set (trace w'))"
      proof (rule ccontr)
        assume "k \<noteq> 0"
        then have "k = length ?vs" using k by auto
        with alldone have c: "cs = map (\<lambda>n. Copied n (processed_name n) True) ?vs"
          and d: "ds = map (\<lambda>n. Deleted n True) ?vs" by auto
        from that show False
        proof
          assume "\<exists>n d. Copied n d False \<in> set (trace w')"
          then obtain n d where "Copied n d False \<in> set cs" using cin by blast
          with c show False by auto
        next
          assume "\<exists>n. Deleted n False \<in> set (trace w')"
          then obtain n where "Deleted n False \<in> set ds" using din by blast
          with d show False by auto
        qed
      qed
      have c3: "(\<exists>n d. Copied n d False \<in> set (trace w')) \<or> (\<exists>n. Deleted n False \<in> set (trace w'))
         \<longrightarrow> r = Inr (complete_message 0, 200)"
        using k0 Inr mc msg by auto
      have c4: "\<forall>n d ok. Copied n d ok \<in> set (trace w') \<longrightarrow>
           n \<in> set ?vs \<and> (\<exists>rest. n = FRAGMENTS_PREFIX @ rest \<and> d = PROCESSED_FRAGMENTS_PREFIX @ rest)"
      proof (intro allI impI)
        fix n d ok assume "Copied n d ok \<in> set (trace w')"
        then have "Copied n d ok \<in> set cs" by (rule cin)
        with cs have n: "n \<in> set ?vs" and d: "d = processed_name n" by auto
        from n obtain rest where "n = FRAGMENTS_PREFIX @ rest"
          using listing_prefix consumed_listed by blast
        with n d show "n \<in> set ?vs \<and> (\<exists>rest. n = FRAGMENTS_PREFIX @ rest \<and> d = PROCESSED_FRAGMENTS_PREFIX @ rest)"
          by (auto simp: processed_name_prefix)
      qed
      have c5: "\<forall>n ok. Deleted n ok \<in> set (trace w') \<longrightarrow> n \<in> set ?vs"
        using din ds by blast
      from c1 c2 c3 c4 c5 show ?thesis by blast
    qed
  qed
qed

theorem no_delete_before_all_copies_witness:
  "trace two_fragments = []
   \<and> fst (handle_consolidation
          ((plain_env table_ab)\<lparr>copy_fault := (\<lambda>n. n = ''fragments/2024-01-01T00-00-00Z_m2.json'')\<rparr>)
          two_fragments) = Inr (''Consolidation complete. Processed 0 fragments.'', 200)
   \<and> trace (snd (handle_consolidation
          ((plain_env table_ab)\<lparr>copy_fault := (\<lambda>n. n = ''fragments/2024-01-01T00-00-00Z_m2.json'')\<rparr>)
          two_fragments))
        = [Listed ''fragments/'', Downloaded ''master_log.json'' False,
           Downloaded ''fragments/2024-01-01T00-00-01Z_m1.json'' True,
           Downloaded ''fragments/2024-01-01T00-00-00Z_m2.json'' True,
           Uploaded ''master_log.json'' True,
           Copied ''fragments/2024-01-01T00-00-01Z_m1.json''
             ''processed/2024-01-01T00-00-01Z_m1.json'' True,
           Copied ''fragments/2024-01-01T00-00-00Z_m2.json''
             ''processed/2024-01-01T00-00-00Z_m2.json'' False]"
proof -
  let ?e = "(plain_env table_ab)\<lparr>copy_fault := (\<lambda>n. n = ''fragments/2024-01-01T00-00-00Z_m2.json'')\<rparr>"
  obtain r w' where run: "handle_consolidation ?e two_fragments = (r, w')"
    by (cases "handle_consolidation ?e two_fragments")
  have t: "trace two_fragments = []" by (simp add: two_fragments_def)
  have ev0: "trace (snd (handle_consolidation ?e two_fragments))
        = [Listed ''fragments/'', Downloaded ''master_log.json'' False,
           Downloaded ''fragments/2024-01-01T00-00-01Z_m1.json'' True,
           Downloaded ''fragments/2024-01-01T00-00-00Z_m2.json'' True,
           Uploaded ''master_log.json'' True,
           Copied ''fragments/2024-01-01T00-00-01Z_m1.json''
             ''processed/2024-01-01T00-00-01Z_m1.json'' True,
           Copied ''fragments/2024-01-01T00-00-00Z_m2.json''
             ''processed/2024-01-01T00-00-00Z_m2.json'' False]"
    by (simp add: run_defs two_fragments_def plain_env_def table_ab_def entry_a_def entry_b_def)
  then have "Copied ''fragments/2024-01-01T00-00-00Z_m2.json''
             ''processed/2024-01-01T00-00-00Z_m2.json'' False \<in> set (trace w')"
    using run by simp
  then have "r = Inr (complete_message 0, 200)"
    using no_delete_before_all_copies [OF run t] by blast
  then have "fst (handle_consolidation ?e two_fragments)
      = Inr (''Consolidation complete. Processed 0 fragments.'', 200)"
    using run by (simp add: complete_message_def str_nat.simps digit_char_def)
  with t ev0 show ?thesis by simp
qed

text \<open>
  C5: in every run that does not rotate and whose write of the master log succeeds, the
  new master log is the prior entries, unchanged and in their order, followed by the
  entries of the decoded fragments of the run (each of them, as often as it was decoded).
\<close>

theorem append_keeps_prior_and_new_entries:
  assumes "handle_consolidation e w = (r, w')" and "trace w = []"
    and "Uploaded MASTER_LOG_FILE_NAME True \<in> set (trace w')"
    and "\<not> should_rotate (prior_entries e (objects w))"
  shows "\<exists>b news. map_of (objects w') MASTER_LOG_FILE_NAME = Some b
    \<and> content b = dumps_indent2 (JArr (prior_entries e (objects w) @ news))
    \<and> mset news = mset (decoded_entries e (objects w))"
proof -
  from successful_write[OF assms(1-3)] obtain news b where
    "sort_entries (decoded_entries e (objects w)) = Inr news"
    "map_of (objects w') MASTER_LOG_FILE_NAME = Some b"
    "content b = dumps_indent2 (JArr (prior_entries e (objects w) @ news))"
    using assms(4) by auto
  with sort_entries_mset show ?thesis by blast
qed

theorem append_keeps_prior_and_new_entries_witness:
  "trace late_fragment = []
   \<and> prior_entries (plain_env table_late) (objects late_fragment) = [entry_a]
   \<and> decoded_entries (plain_env table_late) (objects late_fragment) = [entry_b]
   \<and> \<not> should_rotate [entry_a]
   \<and> map_of (objects (snd (handle_consolidation (plain_env table_late) late_fragment)))
        ''master_log.json''
      = Some \<lparr>content = dumps_indent2 (JArr [entry_a, entry_b]), generation = 3\<rparr>"
proof -
  let ?e = "plain_env table_late"
  obtain r w' where run: "handle_consolidation ?e late_fragment = (r, w')"
    by (cases "handle_consolidation ?e late_fragment")
  have t: "trace late_fragment = []" by (simp add: late_fragment_def)
  have p: "prior_entries ?e (objects late_fragment) = [entry_a]"
    by (simp add: prior_entries_def late_fragment_def plain_env_def table_late_def
        decode_table_def MASTER_LOG_FILE_NAME_def)
  have d: "decoded_entries ?e (objects late_fragment) = [entry_b]"
    by (simp add: run_defs late_fragment_def plain_env_def table_late_def entry_a_def entry_b_def)
  have n: "\<not> should_rotate [entry_a]"
    by (simp add: should_rotate_iff entry_a_def encode_str_def escape_char_def)
  have ev: "map_of (objects (snd (handle_consolidation ?e late_fragment))) ''master_log.json''
      = Some \<lparr>content = dumps_indent2 (JArr [entry_a, entry_b]), generation = 3\<rparr>
    \<and> Uploaded MASTER_LOG_FILE_NAME True
        \<in> set (trace (snd (handle_consolidation ?e late_fragment)))"
    by (simp add: run_defs late_fragment_def plain_env_def table_late_def entry_a_def entry_b_def)
  then have u: "Uploaded MASTER_LOG_FILE_NAME True \<in> set (trace w')" using run by simp
  from append_keeps_prior_and_new_entries [OF run t u] p n
  have "\<exists>b news. map_of (objects w') MASTER_LOG_FILE_NAME = Some b
      \<and> content b = dumps_indent2 (JArr ([entry_a] @ news))
      \<and> mset news = mset (decoded_entries ?e (objects late_fragment))" by simp
  with t p d n ev show ?thesis by simp
qed

text \<open>
  C3, as stated, fails: the prior entries are kept in front of the new ones, whatever
  their timestamps. With the entry of 00:00:01 in the master log and a fragment of
  00:00:00, the successful run writes them in that order.
\<close>

theorem late_fragment_breaks_order:
  "fst (handle_consolidation (plain_env table_late) late_fragment)
     = Inr (''Consolidation complete. Processed 1 fragments.'', 200)
   \<and> map_of (objects (snd (handle_consolidation (plain_env table_late) late_fragment)))
        ''master_log.json''
      = Some \<lparr>content = dumps_indent2 (JArr [entry_a, entry_b]), generation = 3\<rparr>
   \<and> entry_timestamp entry_a = Some ''2024-01-01T00:00:01Z''
   \<and> entry_timestamp entry_b = Some ''2024-01-01T00:00:00Z''
   \<and> \<not> in_timestamp_order [entry_a, entry_b]"
  by (simp add: run_defs late_fragment_def plain_env_def table_late_def entry_a_def entry_b_def)

text \<open>
  C3, amended: for every prior master log and every set of fragments whose entries have
  string timestamps (a missing timestamp counting as the epoch), the master log written
  by a successful run is the prior entries (none of them after a rotation) followed by
  the new entries, and the new entries are in non-decreasing timestamp order. The whole
  log is in non-decreasing order exactly when the kept prior entries are and none of
  them is later than a new entry.
\<close>

theorem new_entries_follow_in_timestamp_order:
  assumes "handle_consolidation e w = (r, w')" and "trace w = []"
    and "Uploaded MASTER_LOG_FILE_NAME True \<in> set (trace w')"
    and "\<forall>x \<in> set (decoded_entries e (objects w)). entry_timestamp x \<noteq> None"
  shows "\<exists>b kept news. map_of (objects w') MASTER_LOG_FILE_NAME = Some b
    \<and> content b = dumps_indent2 (JArr (kept @ news))
    \<and> kept = (if should_rotate (prior_entries e (objects w)) then []
               else prior_entries e (objects w))
    \<and> mset news = mset (decoded_entries e (objects w))
    \<and> in_timestamp_order news
    \<and> (in_timestamp_order (kept @ news) \<longleftrightarrow>
         in_timestamp_order kept
         \<and> (\<forall>x \<in> set kept. \<forall>y \<in> set news. the (entry_timestamp x) \<le> the (entry_timestamp y)))"
proof -
  from successful_write[OF assms(1-3)] obtain news b where
    s: "sort_entries (decoded_entries e (objects w)) = Inr news"
    and b: "map_of (objects w') MASTER_LOG_FILE_NAME = Some b"
    "content b = dumps_indent2 (JArr (if should_rotate (prior_entries e (objects w)) then news
                                         else prior_entries e (objects w) @ news))"
    by auto
  have "list_all (\<lambda>x. entry_timestamp x \<noteq> None) (decoded_entries e (objects w))"
    using assms(4) by (simp add: list_all_iff)
  from sort_entries_in_order[OF this s] have o: "in_timestamp_order news" .
  let ?kept = "if should_rotate (prior_entries e (objects w)) then []
               else prior_entries e (objects w)"
  have "content b = dumps_indent2 (JArr (?kept @ news))" using b(2) by simp
  with b(1) o sort_entries_mset[OF s] in_timestamp_order_append[of ?kept news]
  show ?thesis by blast
qed

theorem new_entries_follow_in_timestamp_order_witness:
  "trace two_fragments = []
   \<and> decoded_entries (plain_env table_ab) (objects two_fragments) = [entry_a, entry_b]
   \<and> entry_timestamp entry_a = Some ''2024-01-01T00:00:01Z''
   \<and> entry_timestamp entry_b = Some ''2024-01-01T00:00:00Z''
   \<and> map_of (objects (snd (handle_consolidation (plain_env table_ab) two_fragments)))
        ''master_log.json''
      = Some \<lparr>content = dumps_indent2 (JArr [entry_b, entry_a]), generation = 3\<rparr>
   \<and> in_timestamp_order [entry_b, entry_a]"
proof -
  let ?e = "plain_env table_ab"
  obtain r w' where run: "handle_consolidation ?e two_fragments = (r, w')"
    by (cases "handle_consolidation ?e two_fragments")
  have t: "trace two_fragments = []" by (simp add: two_fragments_def)
  have d: "decoded_entries ?e (objects two_fragments) = [entry_a, entry_b]"
    by (simp add: run_defs two_fragments_def plain_env_def table_ab_def entry_a_def entry_b_def)
  have ts: "entry_timestamp entry_a = Some ''2024-01-01T00:00:01Z''"
    "entry_timestamp entry_b = Some ''2024-01-01T00:00:00Z''"
    by (simp_all add: entry_timestamp_def timestamp_key_def entry_a_def entry_b_def)
  have h: "\<forall>x \<in> set (decoded_entries ?e (objects two_fragments)). entry_timestamp x \<noteq> None"
    by (simp add: d ts)
  have ev: "map_of (objects (snd (handle_consolidation ?e two_fragments))) ''master_log.json''
      = Some \<lparr>content = dumps_indent2 (JArr [entry_b, entry_a]), generation = 3\<rparr>
    \<and> Uploaded MASTER_LOG_FILE_NAME True
        \<in> set (trace (snd (handle_consolidation ?e two_fragments)))"
    by (simp add: run_defs two_fragments_def plain_env_def table_ab_def entry_a_def entry_b_def)
  then have u: "Uploaded MASTER_LOG_FILE_NAME True \<in> set (trace w')" using run by simp
  have o: "in_timestamp_order [entry_b, entry_a]"
    by (simp add: in_timestamp_order_def ts)
  from new_entries_follow_in_timestamp_order [OF run t u h]
  have "\<exists>b kept news. map_of (objects w') MASTER_LOG_FILE_NAME = Some b
      \<and> content b = dumps_indent2 (JArr (kept @ news)) \<and> in_timestamp_order news" by blast
  with t d ts ev o show ?thesis by simp
qed

text \<open>
  C2: a rotating run is meant to replace the master log by the new entries and to
  archive the prior ones. The code passes
  \<^verbatim>\<open>if_generation_match=0\<close> on that path, which the store takes as ``the object must
  not exist''; the master log exists (its entries were just read), so the write is
  rejected. At a master log of more than 200 KiB with one valid fragment the run raises
  \<^verbatim>\<open>PreconditionFailed\<close>, and the bucket is as it was: no new master log, no archive
  object, the fragment still pending.
\<close>

theorem oversize_master_write_rejected:
  "should_rotate [big_entry]
   \<and> prior_entries (plain_env table_big) (objects oversize_master) = [big_entry]
   \<and> decoded_entries (plain_env table_big) (objects oversize_master) = [entry_b]
   \<and> fst (handle_consolidation (plain_env table_big) oversize_master) = Inl PreconditionFailed
   \<and> objects (snd (handle_consolidation (plain_env table_big) oversize_master))
        = objects oversize_master
   \<and> trace (snd (handle_consolidation (plain_env table_big) oversize_master))
        = [Listed ''fragments/'', Downloaded ''master_log.json'' True,
           Downloaded ''fragments/2024-01-01T00-00-00Z_m2.json'' True,
           Uploaded ''master_log.json'' False]"
  by (simp add: big_rotates run_defs oversize_master_def plain_env_def table_big_def
      big_entry_def entry_b_def big_message_size)


theorem oversize_master_write_rejected_witness:
  "storage_client (plain_env table_big) \<and> bucket (plain_env table_big)
   \<and> map_of (objects oversize_master) MASTER_LOG_FILE_NAME
        = Some \<lparr>content = dumps_indent2 (JArr [big_entry]), generation = 1\<rparr>
   \<and> fst (handle_consolidation (plain_env table_big) oversize_master) = Inl PreconditionFailed"
  using oversize_master_write_rejected
  by (simp add: plain_env_def oversize_master_def MASTER_LOG_FILE_NAME_def)

text \<open>
  C6: a fragment whose text parses, but not to an object, is not skipped. The loop over
  the fragments checks nothing about the decoded value, so it takes the value as a new
  entry and the fragment as consumed; the sort that follows the loop calls
  \<^verbatim>\<open>x.get\<close> on every new entry, outside the loop's \<^verbatim>\<open>try\<close>, and raises
  \<^verbatim>\<open>AttributeError\<close> on this one. At a bucket with one valid fragment and one fragment
  whose text is \<^verbatim>\<open>0\<close> the run raises: nothing is written, copied or deleted, and the valid
  fragment is not processed. On the bucket without the second fragment the run merges
  and retires the valid one.
\<close>

theorem non_object_fragment_aborts_run:
  "listing (objects number_fragment)
     = [''fragments/2024-01-01T00-00-01Z_m1.json'', ''fragments/2024-01-01T00-00-03Z_m4.json'']
   \<and> fragment_entry (plain_env table_number) (objects number_fragment)
        ''fragments/2024-01-01T00-00-01Z_m1.json'' = Some entry_a
   \<and> fragment_entry (plain_env table_number) (objects number_fragment)
        ''fragments/2024-01-01T00-00-03Z_m4.json'' = Some (JNum 0)
   \<and> fst (process_fragments (plain_env table_number) (listing (objects number_fragment)) [] []
            number_fragment)
     = ([entry_a, JNum 0],
        [''fragments/2024-01-01T00-00-01Z_m1.json'', ''fragments/2024-01-01T00-00-03Z_m4.json''])
   \<and> sort_entries [entry_a, JNum 0] = Inl AttributeError
   \<and> handle_consolidation (plain_env table_number) number_fragment
     = (Inl AttributeError,
        number_fragment\<lparr>trace :=
          [Listed ''fragments/'', Downloaded ''master_log.json'' False,
           Downloaded ''fragments/2024-01-01T00-00-01Z_m1.json'' True,
           Downloaded ''fragments/2024-01-01T00-00-03Z_m4.json'' True]\<rparr>)
   \<and> fst (handle_consolidation (plain_env table_number)
          (number_fragment\<lparr>objects :=
             AList.delete ''fragments/2024-01-01T00-00-03Z_m4.json'' (objects number_fragment)\<rparr>))
     = Inr (''Consolidation complete. Processed 1 fragments.'', 200)"
  by (simp add: run_defs number_fragment_def plain_env_def table_number_def entry_a_def)

theorem non_object_fragment_aborts_run_witness:
  "storage_client (plain_env table_number) \<and> bucket (plain_env table_number)
   \<and> decoded_entries (plain_env table_number) (objects number_fragment) = [entry_a, JNum 0]
   \<and> fst (handle_consolidation (plain_env table_number) number_fragment) = Inl AttributeError"
  using non_object_fragment_aborts_run
  by (simp add: run_defs number_fragment_def plain_env_def table_number_def entry_a_def)

text \<open>
  C4: the re-run after a failed deletion does not always get as far as deleting. At a
  master log of 204754 bytes (one-line serialisation), just under the threshold, with
  one pending fragment, a first run whose deletions fail appends the fragment's entry,
  which takes the master log to 204809 bytes, copies the fragment and fails to delete
  it. The re-run, in which nothing fails, finds the master log over the threshold,
  rotates, and its write is rejected (\<^verbatim>\<open>if_generation_match=0\<close> on a master log that
  exists): it raises \<^verbatim>\<open>PreconditionFailed\<close> before it copies or deletes anything, and
  leaves the bucket as the first run left it, so that every later run does the same.
  The original fragment is never deleted.
\<close>

theorem rerun_rotates_and_is_rejected:
  "\<not> should_rotate [long_entry]
   \<and> handle_consolidation deletes_fail nearly_full_master =
       (Inr (''Consolidation complete. Processed 0 fragments.'', 200),
        \<lparr>objects =
           [(''master_log.json'',
               \<lparr>content = dumps_indent2 (JArr [long_entry, entry_b]), generation = 3\<rparr>),
            (''fragments/2024-01-01T00-00-00Z_m2.json'',
               \<lparr>content = dumps entry_b, generation = 2\<rparr>),
            (''processed/2024-01-01T00-00-00Z_m2.json'',
               \<lparr>content = dumps entry_b, generation = 4\<rparr>)],
         last_generation = 4,
         trace =
           [Listed ''fragments/'', Downloaded ''master_log.json'' True,
            Downloaded ''fragments/2024-01-01T00-00-00Z_m2.json'' True,
            Uploaded ''master_log.json'' True,
            Copied ''fragments/2024-01-01T00-00-00Z_m2.json''
              ''processed/2024-01-01T00-00-00Z_m2.json'' True,
            Deleted ''fragments/2024-01-01T00-00-00Z_m2.json'' False]\<rparr>)
   \<and> should_rotate [long_entry, entry_b]
   \<and> handle_consolidation (plain_env table_nearly_full)
        ((snd (handle_consolidation deletes_fail nearly_full_master))\<lparr>trace := []\<rparr>) =
       (Inl PreconditionFailed,
        (snd (handle_consolidation deletes_fail nearly_full_master))\<lparr>trace :=
           [Listed ''fragments/'', Downloaded ''master_log.json'' True,
            Downloaded ''fragments/2024-01-01T00-00-00Z_m2.json'' True,
            Uploaded ''master_log.json'' False]\<rparr>)"
proof -
  let ?after =
    "\<lparr>objects =
        [(''master_log.json'',
            \<lparr>content = dumps_indent2 (JArr [long_entry, entry_b]), generation = 3\<rparr>),
         (''fragments/2024-01-01T00-00-00Z_m2.json'',
            \<lparr>content = dumps entry_b, generation = 2\<rparr>),
         (''processed/2024-01-01T00-00-00Z_m2.json'',
            \<lparr>content = dumps entry_b, generation = 4\<rparr>)],
      last_generation = 4,
      trace = []\<rparr>"
  have small: "\<not> should_rotate [long_entry]"
    by (simp add: should_rotate_iff long_entry_def encode_str_def escape_char_def
        long_message_size)
  have large: "should_rotate [long_entry, entry_b]"
    by (simp add: should_rotate_iff long_entry_def entry_b_def encode_str_def escape_char_def
        long_message_size)
  have first: "handle_consolidation deletes_fail nearly_full_master =
       (Inr (''Consolidation complete. Processed 0 fragments.'', 200),
        ?after\<lparr>trace :=
           [Listed ''fragments/'', Downloaded ''master_log.json'' True,
            Downloaded ''fragments/2024-01-01T00-00-00Z_m2.json'' True,
            Uploaded ''master_log.json'' True,
            Copied ''fragments/2024-01-01T00-00-00Z_m2.json''
              ''processed/2024-01-01T00-00-00Z_m2.json'' True,
            Deleted ''fragments/2024-01-01T00-00-00Z_m2.json'' False]\<rparr>)"
    by (simp add: run_defs nearly_full_master_def deletes_fail_def plain_env_def
        table_nearly_full_def long_entry_def entry_b_def long_message_size)
  have again: "handle_consolidation (plain_env table_nearly_full) ?after =
       (Inl PreconditionFailed,
        ?after\<lparr>trace :=
           [Listed ''fragments/'', Downloaded ''master_log.json'' True,
            Downloaded ''fragments/2024-01-01T00-00-00Z_m2.json'' True,
            Uploaded ''master_log.json'' False]\<rparr>)"
    by (simp add: run_defs plain_env_def table_nearly_full_def long_entry_def entry_b_def
        long_message_size)
  show ?thesis using small large again by (simp add: first)
qed

theorem rerun_rotates_and_is_rejected_witness:
  "storage_client (plain_env table_nearly_full) \<and> bucket (plain_env table_nearly_full)
   \<and> map_of (objects (snd (handle_consolidation deletes_fail nearly_full_master)))
        ''fragments/2024-01-01T00-00-00Z_m2.json''
      = Some \<lparr>content = dumps entry_b, generation = 2\<rparr>
   \<and> fst (handle_consolidation (plain_env table_nearly_full)
        ((snd (handle_consolidation deletes_fail nearly_full_master))\<lparr>trace := []\<rparr>))
      = Inl PreconditionFailed
   \<and> objects (snd (handle_consolidation (plain_env table_nearly_full)
        ((snd (handle_consolidation deletes_fail nearly_full_master))\<lparr>trace := []\<rparr>)))
      = objects (snd (handle_consolidation deletes_fail nearly_full_master))"
  using rerun_rotates_and_is_rejected
  by (elim conjE) (simp add: plain_env_def)
end
